theory Spec2Isabelle
  imports Main
begin

section \<open>Go strings and the library functions the handler calls\<close>

text \<open>
  A Go string is a sequence of bytes; \<^typ>\<open>string\<close> (a list of 8-bit characters) is
  the same thing. A rune (\<^verbatim>\<open>int32\<close>) is an integer. The handler of
  \<^verbatim>\<open>handler.go\<close> is glue over the Go library: \<^verbatim>\<open>strings\<close>, \<^verbatim>\<open>unicode/utf8\<close>,
  \<^verbatim>\<open>path\<close>, \<^verbatim>\<open>path/filepath\<close> (Unix flavour), \<^verbatim>\<open>os\<close> and
  \<^verbatim>\<open>golang.org/x/text/cases\<close>. Their behaviour is written out below. The Unicode
  case tables themselves (lower-case mapping and full case folding of the runes above
  ASCII) are not part of the repository and are taken as parameters.
\<close>

abbreviation byte :: "char \<Rightarrow> int" where
  "byte c \<equiv> of_char c"

definition RuneError :: int where
  "RuneError = 65533"

definition RuneSelf :: int where
  "RuneSelf = 128"

subsection \<open>unicode/utf8\<close>

text \<open>
  \<^verbatim>\<open>utf8.DecodeRuneInString\<close>: the rune at the front of the string and its width in
  bytes; an invalid or short encoding gives \<open>(RuneError, 1)\<close>, the empty string
  \<open>(RuneError, 0)\<close>. The first-byte table and the accept ranges of the second byte
  are written as comparisons.
\<close>

fun utf8_DecodeRuneInString :: "string \<Rightarrow> int \<times> nat" where
  "utf8_DecodeRuneInString [] = (RuneError, 0)"
| "utf8_DecodeRuneInString (c0 # t) =
     (let s0 = byte c0 in
      if s0 < 128 then (s0, 1)
      else if s0 < 194 \<or> 244 < s0 then (RuneError, 1)
      else
        let sz = (if s0 < 224 then 2 else if s0 < 240 then 3 else (4::nat));
            lo = (if s0 = 224 then 160 else if s0 = 240 then 144 else (128::int));
            hi = (if s0 = 237 then 159 else if s0 = 244 then 143 else (191::int))
        in if length (c0 # t) < sz then (RuneError, 1)
           else
             let s1 = byte (t ! 0) in
             if s1 < lo \<or> hi < s1 then (RuneError, 1)
             else if sz \<le> 2 then ((s0 mod 32) * 64 + s1 mod 64, 2)
             else
               let s2 = byte (t ! 1) in
               if s2 < 128 \<or> 191 < s2 then (RuneError, 1)
               else if sz \<le> 3 then ((s0 mod 16) * 4096 + (s1 mod 64) * 64 + s2 mod 64, 3)
               else
                 let s3 = byte (t ! 2) in
                 if s3 < 128 \<or> 191 < s3 then (RuneError, 1)
                 else ((s0 mod 8) * 262144 + (s1 mod 64) * 4096 + (s2 mod 64) * 64
                         + s3 mod 64, 4))"

text \<open>
  \<^verbatim>\<open>for i, c := range s\<close>: the string cut into its runes, each with the bytes it was
  decoded from. An invalid byte is a chunk of its own with rune \<open>RuneError\<close>.
\<close>

fun chunks :: "string \<Rightarrow> (int \<times> string) list" where
  "chunks [] = []"
| "chunks (c # cs) =
     (case utf8_DecodeRuneInString (c # cs) of
        (r, n) \<Rightarrow> (r, c # take (n - 1) cs) # chunks (drop (n - 1) cs))"

text \<open>
  \<^verbatim>\<open>utf8.AppendRune\<close>: the rune is read as an unsigned number, so that negative
  runes, like surrogates and values above \<open>MaxRune\<close>, are written as \<open>RuneError\<close>.
\<close>

definition utf8_AppendRune :: "int \<Rightarrow> string" where
  "utf8_AppendRune r =
     (if 0 \<le> r \<and> r \<le> 127 then [char_of r]
      else if 0 \<le> r \<and> r \<le> 2047 then [char_of (192 + r div 64), char_of (128 + r mod 64)]
      else if r < 0 \<or> 1114111 < r \<or> (55296 \<le> r \<and> r \<le> 57343) then
        [char_of (239::int), char_of (191::int), char_of (189::int)]
      else if r \<le> 65535 then
        [char_of (224 + r div 4096), char_of (128 + (r div 64) mod 64), char_of (128 + r mod 64)]
      else
        [char_of (240 + r div 262144), char_of (128 + (r div 4096) mod 64),
         char_of (128 + (r div 64) mod 64), char_of (128 + r mod 64)])"


subsection \<open>unicode\<close>

text \<open>
  The tables of the Unicode data base that the library consults for runes above ASCII:
  \<open>ToLowerTab r\<close> is \<^verbatim>\<open>unicode.To(unicode.LowerCase, r)\<close>, and \<open>FoldTab r\<close> is the
  UTF-8 text of the full case folding of \<open>r\<close> as \<^verbatim>\<open>x/text/cases\<close> writes it.
\<close>

record unicode_tables =
  ToLowerTab :: "int \<Rightarrow> int"
  FoldTab :: "int \<Rightarrow> string"

definition unicode_ToLower :: "unicode_tables \<Rightarrow> int \<Rightarrow> int" where
  "unicode_ToLower tabs r =
     (if r \<le> 127 then (if 65 \<le> r \<and> r \<le> 90 then r + 32 else r)
      else ToLowerTab tabs r)"

text \<open>\<^verbatim>\<open>unicode.IsSpace\<close>: the Latin-1 switch, then the White_Space range table.\<close>

definition unicode_IsSpace :: "int \<Rightarrow> bool" where
  "unicode_IsSpace r =
     (if 0 \<le> r \<and> r \<le> 255 then r \<in> {9, 10, 11, 12, 13, 32, 133, 160}
      else r = 5760 \<or> (8192 \<le> r \<and> r \<le> 8202) \<or> r = 8232 \<or> r = 8233 \<or> r = 8239
           \<or> r = 8287 \<or> r = 12288)"

subsection \<open>strings\<close>

definition strings_HasPrefix :: "string \<Rightarrow> string \<Rightarrow> bool" where
  "strings_HasPrefix s pre = (length pre \<le> length s \<and> take (length pre) s = pre)"

definition strings_TrimPrefix :: "string \<Rightarrow> string \<Rightarrow> string" where
  "strings_TrimPrefix s pre = (if strings_HasPrefix s pre then drop (length pre) s else s)"

text \<open>
  \<^verbatim>\<open>strings.Split\<close>: cut at every occurrence of the separator, leftmost first; the
  empty separator explodes the string into its UTF-8 sequences. \<open>cur\<close> holds the
  bytes of the piece being read.
\<close>

function Split_loop :: "string \<Rightarrow> string \<Rightarrow> string \<Rightarrow> string list" where
  "Split_loop sep cur [] = [cur]"
| "Split_loop sep cur (x # xs) =
     (if strings_HasPrefix (x # xs) sep
      then cur # Split_loop sep [] (drop (length sep - 1) xs)
      else Split_loop sep (cur @ [x]) xs)"
  by pat_completeness auto
termination
  by (relation "measure (\<lambda>(sep, cur, s). length s)") auto

definition strings_Split :: "string \<Rightarrow> string \<Rightarrow> string list" where
  "strings_Split s sep = (if sep = [] then map snd (chunks s) else Split_loop sep [] s)"

fun strings_Join :: "string list \<Rightarrow> string \<Rightarrow> string" where
  "strings_Join [] sep = []"
| "strings_Join [e] sep = e"
| "strings_Join (e # es) sep = e @ sep @ strings_Join es sep"

text \<open>
  \<^verbatim>\<open>strings.Map\<close>: every rune of the string replaced by its image, re-encoded, and
  dropped when the image is negative. The library copies the bytes of an unchanged rune
  instead of re-encoding it; an invalid byte is read as \<open>RuneError\<close> and its image is
  written.
\<close>

definition strings_Map :: "(int \<Rightarrow> int) \<Rightarrow> string \<Rightarrow> string" where
  "strings_Map mapping s =
     concat (map (\<lambda>ch. if mapping (fst ch) = fst ch \<and> (fst ch \<noteq> RuneError \<or> length (snd ch) \<noteq> 1)
                        then snd ch
                        else if mapping (fst ch) < 0 then []
                        else utf8_AppendRune (mapping (fst ch))) (chunks s))"

definition lowerByte :: "char \<Rightarrow> char" where
  "lowerByte c = (if 65 \<le> byte c \<and> byte c \<le> 90 then char_of (byte c + 32) else c)"

text \<open>\<^verbatim>\<open>strings.ToLower\<close>: a byte loop for ASCII-only strings, \<^verbatim>\<open>Map(unicode.ToLower, s)\<close> otherwise.\<close>

definition strings_ToLower :: "unicode_tables \<Rightarrow> string \<Rightarrow> string" where
  "strings_ToLower tabs s =
     (if list_all (\<lambda>c. byte c < RuneSelf) s then map lowerByte s
      else strings_Map (unicode_ToLower tabs) s)"

text \<open>
  \<^verbatim>\<open>strings.TrimLeftFunc\<close> and \<^verbatim>\<open>strings.TrimRightFunc\<close>: drop the leading (trailing)
  runes that satisfy \<open>f\<close>. The library reads the tail backwards with
  \<^verbatim>\<open>DecodeLastRuneInString\<close>, which finds the same runes as reading forwards.
\<close>

definition strings_TrimLeftFunc :: "string \<Rightarrow> (int \<Rightarrow> bool) \<Rightarrow> string" where
  "strings_TrimLeftFunc s f = concat (map snd (dropWhile (\<lambda>ch. f (fst ch)) (chunks s)))"

definition strings_TrimRightFunc :: "string \<Rightarrow> (int \<Rightarrow> bool) \<Rightarrow> string" where
  "strings_TrimRightFunc s f =
     concat (map snd (rev (dropWhile (\<lambda>ch. f (fst ch)) (rev (chunks s)))))"

definition strings_TrimFunc :: "string \<Rightarrow> (int \<Rightarrow> bool) \<Rightarrow> string" where
  "strings_TrimFunc s f = strings_TrimRightFunc (strings_TrimLeftFunc s f) f"

definition asciiSpace :: "char \<Rightarrow> bool" where
  "asciiSpace c = (byte c \<in> {9, 10, 11, 12, 13, 32})"

text \<open>
  \<^verbatim>\<open>strings.TrimSpace\<close>: the ASCII fast path from the front, then from the back; the
  first non-ASCII byte met hands the rest to the rune-wise functions.
  \<open>TrimSpace_stop\<close> receives the remaining slice reversed.
\<close>

fun TrimSpace_stop :: "string \<Rightarrow> string" where
  "TrimSpace_stop [] = []"
| "TrimSpace_stop (c # cs) =
     (if RuneSelf \<le> byte c then strings_TrimRightFunc (rev (c # cs)) unicode_IsSpace
      else if asciiSpace c then TrimSpace_stop cs
      else rev (c # cs))"

fun strings_TrimSpace :: "string \<Rightarrow> string" where
  "strings_TrimSpace [] = []"
| "strings_TrimSpace (c # cs) =
     (if RuneSelf \<le> byte c then strings_TrimFunc (c # cs) unicode_IsSpace
      else if asciiSpace c then strings_TrimSpace cs
      else TrimSpace_stop (rev (c # cs)))"

subsection \<open>path and path/filepath\<close>

text \<open>
  \<^verbatim>\<open>path.Clean\<close>. \<open>out\<close> is the output buffer, \<open>dotdot\<close> the index in it where
  a \<^verbatim>\<open>..\<close> element must stop backing up. \<open>backtrack\<close> is the inner loop that moves
  the write index back to the previous slash; \<open>Clean_step\<close> is one round of the
  main loop (the \<^verbatim>\<open>switch\<close>) on the unread input \<open>c # cs\<close>, giving the input
  still unread, the buffer and \<open>dotdot\<close>.
\<close>

fun backtrack :: "string \<Rightarrow> nat \<Rightarrow> nat \<Rightarrow> nat" where
  "backtrack out dotdot w =
     (if dotdot < w \<and> out ! w \<noteq> CHR ''/'' then backtrack out dotdot (w - 1) else w)"

declare backtrack.simps [simp del]

definition Clean_step :: "bool \<Rightarrow> char \<Rightarrow> string \<Rightarrow> string \<Rightarrow> nat \<Rightarrow> string \<times> string \<times> nat" where
  "Clean_step rooted c cs out dotdot =
     (if c = CHR ''/'' then (cs, out, dotdot)
      else if c = CHR ''.'' \<and> (cs = [] \<or> hd cs = CHR ''/'') then (cs, out, dotdot)
      else if c = CHR ''.'' \<and> hd cs = CHR ''.'' \<and> (tl cs = [] \<or> hd (tl cs) = CHR ''/'') then
        (if dotdot < length out
         then (tl cs, take (backtrack out dotdot (length out - 1)) out, dotdot)
         else if \<not> rooted
         then (tl cs, (if 0 < length out then out @ ''/'' else out) @ ''..'',
               length ((if 0 < length out then out @ ''/'' else out) @ ''..''))
         else (tl cs, out, dotdot))
      else (dropWhile (\<lambda>x. x \<noteq> CHR ''/'') cs,
            (if rooted \<and> length out \<noteq> 1 \<or> \<not> rooted \<and> length out \<noteq> 0 then out @ ''/'' else out)
              @ c # takeWhile (\<lambda>x. x \<noteq> CHR ''/'') cs,
            dotdot))"

lemma Clean_step_shorter:
  "(s, rest) = Clean_step rooted c cs out dotdot \<Longrightarrow> length s < Suc (length cs)"
proof -
  assume a: "(s, rest) = Clean_step rooted c cs out dotdot"
  have "length (fst (Clean_step rooted c cs out dotdot)) \<le> length cs"
    unfolding Clean_step_def
    by (simp only: split: if_split, intro conjI impI)
       (simp_all (no_asm) only: fst_conv length_dropWhile_le order_refl length_tl diff_le_self)
  with a [symmetric] show ?thesis by simp
qed

function Clean_loop :: "bool \<Rightarrow> string \<Rightarrow> string \<Rightarrow> nat \<Rightarrow> string" where
  "Clean_loop rooted [] out dotdot = out"
| "Clean_loop rooted (c # cs) out dotdot =
     (case Clean_step rooted c cs out dotdot of
        (s, out', dotdot') \<Rightarrow> Clean_loop rooted s out' dotdot')"
  by pat_completeness auto
termination
proof (relation "measure (\<lambda>(rooted, s, out, dotdot). length s)", goal_cases)
  case 1
  show ?case by simp
next
  case prems: 2
  from Clean_step_shorter [OF prems(1)] show ?case by simp
qed

definition path_Clean :: "string \<Rightarrow> string" where
  "path_Clean p =
     (if p = [] then ''.''
      else
        let rooted = (hd p = CHR ''/'');
            out = (if rooted then Clean_loop True (tl p) ''/'' 1 else Clean_loop False p [] 0)
        in if out = [] then ''.'' else out)"

text \<open>\<^verbatim>\<open>filepath.IsAbs\<close>, \<^verbatim>\<open>filepath.Join\<close> and \<^verbatim>\<open>filepath.Abs\<close> on Unix.\<close>

definition filepath_IsAbs :: "string \<Rightarrow> bool" where
  "filepath_IsAbs p = strings_HasPrefix p ''/''"

fun filepath_Join :: "string list \<Rightarrow> string" where
  "filepath_Join [] = []"
| "filepath_Join (e # es) =
     (if e \<noteq> [] then path_Clean (strings_Join (e # es) ''/'') else filepath_Join es)"

text \<open>\<open>getwd\<close> is the answer of \<^verbatim>\<open>os.Getwd\<close>, \<open>None\<close> when it fails.\<close>

definition filepath_Abs :: "string option \<Rightarrow> string \<Rightarrow> string option" where
  "filepath_Abs getwd p =
     (if filepath_IsAbs p then Some (path_Clean p)
      else (case getwd of None \<Rightarrow> None | Some wd \<Rightarrow> Some (filepath_Join [wd, p])))"

subsection \<open>path.Match\<close>

datatype error = ErrBadPattern | NilPointerDereference

text \<open>
  \<^verbatim>\<open>scanChunk\<close>: the leading stars are dropped (\<open>star\<close> tells whether there were any),
  then the pattern is read up to the next star that is outside a character class.
  \<open>scanChunk_scan\<close> is the scanning loop; it returns the index \<open>i\<close> at which it
  stops, and the pattern is cut there.
\<close>

fun scanChunk_scan :: "bool \<Rightarrow> string \<Rightarrow> nat" where
  "scanChunk_scan inrange [] = 0"
| "scanChunk_scan inrange [c] = (if c = CHR ''*'' \<and> \<not> inrange then 0 else 1)"
| "scanChunk_scan inrange (c # d # ds) =
     (if c = CHR 0x5C then 2 + scanChunk_scan inrange ds
      else if c = CHR ''['' then 1 + scanChunk_scan True (d # ds)
      else if c = CHR '']'' then 1 + scanChunk_scan False (d # ds)
      else if c = CHR ''*'' \<and> \<not> inrange then 0
      else 1 + scanChunk_scan inrange (d # ds))"

definition scanChunk :: "string \<Rightarrow> bool \<times> string \<times> string" where
  "scanChunk pattern =
     (let p = dropWhile (\<lambda>c. c = CHR ''*'') pattern;
          i = scanChunk_scan False p
      in (pattern \<noteq> [] \<and> hd pattern = CHR ''*'', take i p, drop i p))"

text \<open>
  \<^verbatim>\<open>getEsc\<close>: a possibly escaped character of a character class and the chunk after
  it; \<open>None\<close> stands for \<^verbatim>\<open>ErrBadPattern\<close>.
\<close>

definition getEsc :: "string \<Rightarrow> (int \<times> string) option" where
  "getEsc chunk =
     (if chunk = [] \<or> hd chunk = CHR ''-'' \<or> hd chunk = CHR '']'' then None
      else
        let chunk1 = (if hd chunk = CHR 0x5C then tl chunk else chunk) in
        if chunk1 = [] then None
        else
          let r = fst (utf8_DecodeRuneInString chunk1); n = snd (utf8_DecodeRuneInString chunk1) in
          if r = RuneError \<and> n = 1 then None
          else if drop n chunk1 = [] then None
          else Some (r, drop n chunk1))"

text \<open>
  The range loop of a character class: \<open>r\<close> is the rune of the name under test,
  \<open>match\<close> whether a range has held it, \<open>nrange\<close> the number of ranges read. The
  result is \<open>match\<close> and the chunk after the closing bracket.
\<close>

lemma DecodeRuneInString_width: "s \<noteq> [] \<Longrightarrow> 0 < snd (utf8_DecodeRuneInString s)"
  by (cases s) (simp_all add: Let_def)

lemma getEsc_shorter: "getEsc chunk = Some e \<Longrightarrow> length (snd e) < length chunk"
proof -
  assume a: "getEsc chunk = Some e"
  then have ne: "chunk \<noteq> []"
    by (auto simp: getEsc_def)
  define chunk1 where "chunk1 = (if hd chunk = CHR 0x5C then tl chunk else chunk)"
  from a have ne1: "chunk1 \<noteq> []" and e: "snd e = drop (snd (utf8_DecodeRuneInString chunk1)) chunk1"
    by (auto simp: getEsc_def Let_def chunk1_def split: if_splits)
  have "length (snd e) < length chunk1"
    using DecodeRuneInString_width [OF ne1] ne1 by (simp add: e)
  moreover have "length chunk1 \<le> length chunk"
    by (simp add: chunk1_def)
  ultimately show ?thesis by simp
qed

function classLoop :: "string \<Rightarrow> int \<Rightarrow> bool \<Rightarrow> nat \<Rightarrow> (bool \<times> string) option" where
  "classLoop chunk r match nrange =
     (if chunk \<noteq> [] \<and> hd chunk = CHR '']'' \<and> 0 < nrange then Some (match, tl chunk)
      else
        (case getEsc chunk of
           None \<Rightarrow> None
         | Some lo \<Rightarrow>
             if hd (snd lo) = CHR ''-'' then
               (case getEsc (tl (snd lo)) of
                  None \<Rightarrow> None
                | Some hi \<Rightarrow>
                    classLoop (snd hi) r (match \<or> (fst lo \<le> r \<and> r \<le> fst hi)) (nrange + 1))
             else classLoop (snd lo) r (match \<or> (fst lo \<le> r \<and> r \<le> fst lo)) (nrange + 1)))"
  by pat_completeness auto
termination
proof (relation "measure (\<lambda>(chunk, r, match, nrange). length chunk)", goal_cases)
  case 1
  show ?case by simp
next
  case (2 chunk r match nrange lo hi)
  have a: "length (snd lo) < length chunk"
    using 2(2) by (rule getEsc_shorter)
  have b: "length (snd hi) < length (tl (snd lo))"
    using 2(4) by (rule getEsc_shorter)
  from a b show ?case by simp
next
  case (3 chunk r match nrange lo)
  have "length (snd lo) < length chunk"
    using 3(2) by (rule getEsc_shorter)
  then show ?case by simp
qed

declare classLoop.simps [simp del]

lemma classLoop_shorter:
  "classLoop chunk r match nrange = Some res \<Longrightarrow> length (snd res) \<le> length chunk"
proof (induction chunk r match nrange rule: classLoop.induct)
  case (1 chunk r match nrange)
  show ?case
  proof (cases "chunk \<noteq> [] \<and> hd chunk = CHR '']'' \<and> 0 < nrange")
    case True
    have "classLoop chunk r match nrange = Some (match, tl chunk)"
      by (subst classLoop.simps) (rule if_P [OF True])
    with "1.prems" have "snd res = tl chunk" by auto
    then show ?thesis by simp
  next
    case False
    have unf: "classLoop chunk r match nrange =
      (case getEsc chunk of
         None \<Rightarrow> None
       | Some lo \<Rightarrow>
           if hd (snd lo) = CHR ''-'' then
             (case getEsc (tl (snd lo)) of
                None \<Rightarrow> None
              | Some hi \<Rightarrow>
                  classLoop (snd hi) r (match \<or> (fst lo \<le> r \<and> r \<le> fst hi)) (nrange + 1))
           else classLoop (snd lo) r (match \<or> (fst lo \<le> r \<and> r \<le> fst lo)) (nrange + 1))"
      by (subst classLoop.simps) (rule if_not_P [OF False])
    from unf "1.prems" obtain lo where lo: "getEsc chunk = Some lo"
      by (auto split: option.splits)
    have l1: "length (snd lo) < length chunk"
      using lo by (rule getEsc_shorter)
    show ?thesis
    proof (cases "hd (snd lo) = CHR ''-''")
      case dash: True
      from unf lo dash "1.prems" obtain hi where hi: "getEsc (tl (snd lo)) = Some hi"
        by (auto split: option.splits)
      have l2: "length (snd hi) < length (tl (snd lo))"
        using hi by (rule getEsc_shorter)
      have "length (snd res) \<le> length (snd hi)"
        using "1.IH"(1) [OF False lo dash hi] unf lo dash hi "1.prems" by simp
      with l1 l2 show ?thesis by simp
    next
      case nodash: False
      have "length (snd res) \<le> length (snd lo)"
        using "1.IH"(2) [OF False lo nodash] unf lo nodash "1.prems" by simp
      with l1 show ?thesis by simp
    qed
  qed
qed

text \<open>
  \<^verbatim>\<open>matchChunk\<close>: the chunk holds only single-character operators (literals, classes
  and \<^verbatim>\<open>?\<close>). After the match has failed the loop goes on reading the chunk, to
  report a malformed pattern, but no longer reads the name. \<open>matchChunk_step\<close> is one
  round of the loop on the chunk \<open>c # ch\<close>: \<open>None\<close> is \<^verbatim>\<open>ErrBadPattern\<close>, otherwise
  the chunk and the name still to read and the flag \<open>failed\<close>.
\<close>

definition matchChunk_step :: "char \<Rightarrow> string \<Rightarrow> string \<Rightarrow> bool \<Rightarrow> (string \<times> string \<times> bool) option" where
  "matchChunk_step c ch s failed0 =
     (let failed = (failed0 \<or> s = []) in
      if c = CHR ''['' then
        let r = (if \<not> failed then fst (utf8_DecodeRuneInString s) else 0);
            s1 = (if \<not> failed then drop (snd (utf8_DecodeRuneInString s)) s else s);
            negated = (ch \<noteq> [] \<and> hd ch = CHR ''^'');
            ch1 = (if negated then tl ch else ch)
        in (case classLoop ch1 r False 0 of
              None \<Rightarrow> None
            | Some m \<Rightarrow> Some (snd m, s1, failed \<or> fst m = negated))
      else if c = CHR ''?'' then
        Some (ch, if \<not> failed then drop (snd (utf8_DecodeRuneInString s)) s else s,
              if failed then True else hd s = CHR ''/'')
      else if c = CHR 0x5C then
        (if ch = [] then None
         else Some (tl ch, if \<not> failed then tl s else s, if failed then True else hd ch \<noteq> hd s))
      else Some (ch, if \<not> failed then tl s else s, if failed then True else c \<noteq> hd s))"

lemma matchChunk_step_shorter:
  "matchChunk_step c ch s failed = Some st \<Longrightarrow> length (fst st) \<le> length ch"
  by (auto simp: matchChunk_step_def Let_def split: if_splits option.splits
           dest!: classLoop_shorter)

function matchChunk_loop :: "string \<Rightarrow> string \<Rightarrow> bool \<Rightarrow> error + (string \<times> bool)" where
  "matchChunk_loop [] s failed = (if failed then Inr ([], False) else Inr (s, True))"
| "matchChunk_loop (c # ch) s failed =
     (case matchChunk_step c ch s failed of
        None \<Rightarrow> Inl ErrBadPattern
      | Some st \<Rightarrow> matchChunk_loop (fst st) (fst (snd st)) (snd (snd st)))"
  by pat_completeness auto
termination
proof (relation "measure (\<lambda>(chunk, s, failed). length chunk)", goal_cases)
  case 1
  show ?case by simp
next
  case (2 c ch s failed st)
  from matchChunk_step_shorter [OF 2] show ?case by (simp add: case_prod_unfold)
qed

definition matchChunk :: "string \<Rightarrow> string \<Rightarrow> error + (string \<times> bool)" where
  "matchChunk chunk s = matchChunk_loop chunk s False"

lemma scanChunk_scan_le: "scanChunk_scan inrange p \<le> length p"
  by (induction inrange p rule: scanChunk_scan.induct) auto

lemma scanChunk_scan_pos: "p \<noteq> [] \<Longrightarrow> hd p \<noteq> CHR ''*'' \<Longrightarrow> 0 < scanChunk_scan inrange p"
  by (induction inrange p rule: scanChunk_scan.induct) auto

lemma scanChunk_shorter:
  "pattern \<noteq> [] \<Longrightarrow> length (snd (snd (scanChunk pattern))) < length pattern"
proof (cases "hd pattern = CHR ''*''")
  case True
  assume ne: "pattern \<noteq> []"
  then obtain c q where p: "pattern = c # q" by (cases pattern) auto
  with True have c: "c = CHR ''*''" by simp
  have "length (dropWhile (\<lambda>c. c = CHR ''*'') q) \<le> length q"
    by (rule length_dropWhile_le)
  then show ?thesis
    by (simp add: scanChunk_def p c Let_def)
next
  case False
  assume ne: "pattern \<noteq> []"
  then obtain c q where p: "pattern = c # q" by (cases pattern) auto
  with False have d: "dropWhile (\<lambda>c. c = CHR ''*'') pattern = pattern" by simp
  from scanChunk_scan_pos [OF ne False, of False] ne show ?thesis
    by (simp add: scanChunk_def d Let_def)
qed

text \<open>
  The check made before \<^verbatim>\<open>Match\<close> returns false without an error: the rest of the
  pattern is read chunk by chunk against the empty name, for its syntax only.
\<close>

function checkRest :: "string \<Rightarrow> error option" where
  "checkRest pattern =
     (if pattern = [] then None
      else
        (case scanChunk pattern of
           (star, chunk, rest) \<Rightarrow>
             (case matchChunk chunk [] of
                Inl e \<Rightarrow> Some e
              | Inr m \<Rightarrow> checkRest rest)))"
  by pat_completeness auto
termination
proof (relation "measure length", goal_cases)
  case 1
  show ?case by simp
next
  case prems: 2
  from scanChunk_shorter [OF prems(1)] prems(2,3) [symmetric] show ?case by simp
qed

declare checkRest.simps [simp del]

text \<open>
  The loop of \<^verbatim>\<open>Match\<close> that lets a star swallow \<open>i + 1\<close> bytes of the name, for
  \<open>i = 0, 1, \<dots>\<close>, and stops at a slash: \<open>Inr (Some t)\<close> when the chunk matched
  with \<open>t\<close> left over, \<open>Inr None\<close> when no position matched. \<open>lastc\<close> says that no
  pattern is left after the chunk, so that the name must be used up.
\<close>

fun starLoop :: "string \<Rightarrow> bool \<Rightarrow> string \<Rightarrow> error + string option" where
  "starLoop chunk lastc [] = Inr None"
| "starLoop chunk lastc (c # cs) =
     (if c = CHR ''/'' then Inr None
      else
        (case matchChunk chunk cs of
           Inl e \<Rightarrow> Inl e
         | Inr m \<Rightarrow>
             if snd m \<and> \<not> (lastc \<and> fst m \<noteq> []) then Inr (Some (fst m))
             else starLoop chunk lastc cs))"

text \<open>\<^verbatim>\<open>path.Match\<close>: the pair \<open>(matched, err)\<close> of the library.\<close>

function path_Match :: "string \<Rightarrow> string \<Rightarrow> bool \<times> error option" where
  "path_Match pattern name =
     (if pattern = [] then (name = [], None)
      else
        (case scanChunk pattern of
           (star, chunk, rest) \<Rightarrow>
             if star \<and> chunk = [] then (CHR ''/'' \<notin> set name, None)
             else
               (case matchChunk chunk name of
                  Inl e \<Rightarrow> (False, Some e)
                | Inr m \<Rightarrow>
                    if snd m \<and> (fst m = [] \<or> rest \<noteq> []) then path_Match rest (fst m)
                    else if star then
                      (case starLoop chunk (rest = []) name of
                         Inl e \<Rightarrow> (False, Some e)
                       | Inr None \<Rightarrow> (False, checkRest rest)
                       | Inr (Some t) \<Rightarrow> path_Match rest t)
                    else (False, checkRest rest))))"
  by pat_completeness auto
termination
proof (relation "measure (\<lambda>(pattern, name). length pattern)", goal_cases)
  case 1
  show ?case by simp
next
  case prems: 2
  from scanChunk_shorter [OF prems(1)] prems(2,3) [symmetric] show ?case by simp
next
  case prems: 3
  from scanChunk_shorter [OF prems(1)] prems(2,3) [symmetric] show ?case by simp
qed

declare path_Match.simps [simp del]

subsection \<open>golang.org/x/text/cases and os\<close>

text \<open>
  \<^verbatim>\<open>cases.Fold().String\<close>: full Unicode case folding, rune by rune and without context.
  An ASCII byte is folded to its lower-case byte, a byte that is not part of a valid
  encoding is copied, and any other rune is replaced by its folding from the table.
\<close>

definition cases_Fold_String :: "unicode_tables \<Rightarrow> string \<Rightarrow> string" where
  "cases_Fold_String tabs s =
     concat (map (\<lambda>ch. if fst ch < RuneSelf then map lowerByte (snd ch)
                        else if fst ch = RuneError \<and> length (snd ch) = 1 then snd ch
                        else FoldTab tabs (fst ch)) (chunks s))"

text \<open>
  The file system as the handler sees it: \<open>ReadDir d\<close> is the list of entry names
  that \<^verbatim>\<open>os.ReadDir(d)\<close> returns (in its order), \<open>None\<close> when it returns an error;
  \<open>Stat p\<close> is \<open>None\<close> when \<^verbatim>\<open>os.Stat(p)\<close> fails and otherwise tells whether \<open>p\<close>
  is a directory. Every call is recorded as an event.
\<close>

record filesys =
  ReadDir :: "string \<Rightarrow> string list option"
  Stat :: "string \<Rightarrow> bool option"

datatype io_event = EvReadDir string | EvStat string

section \<open>The handler\<close>

text \<open>The two implementations of the interface \<^verbatim>\<open>caser\<close> that \<^verbatim>\<open>Provision\<close> assigns.\<close>

datatype caser = lowerCaser | cases_Fold

fun caser_String :: "unicode_tables \<Rightarrow> caser \<Rightarrow> string \<Rightarrow> string" where
  "caser_String tabs lowerCaser s = strings_ToLower tabs s"
| "caser_String tabs cases_Fold s = cases_Fold_String tabs s"

text \<open>The struct \<^verbatim>\<open>Casefold\<close>; the field \<open>fold\<close> is \<open>None\<close> while it is \<^verbatim>\<open>nil\<close>.\<close>

record Casefold =
  Mode :: string
  Root :: string
  Exclude :: "string list"
  fold :: "caser option"

text \<open>
  \<^verbatim>\<open>Provision\<close>: the configured handler and the warnings sent to the logger.
  \<open>getwd\<close> is the working directory that \<^verbatim>\<open>filepath.Abs\<close> asks for. The error
  returned is always \<^verbatim>\<open>nil\<close>.
\<close>

definition Provision :: "unicode_tables \<Rightarrow> string option \<Rightarrow> Casefold \<Rightarrow> Casefold \<times> string list" where
  "Provision tabs getwd c =
     (let mode = strings_ToLower tabs (strings_TrimSpace (Mode c)) in
      if mode = [] \<or> mode = ''lower'' then (c\<lparr>fold := Some lowerCaser\<rparr>, [])
      else if mode = ''fold'' then (c\<lparr>fold := Some cases_Fold\<rparr>, [])
      else if mode = ''fs'' then
        (if Root c = [] then (c, [''fs mode enabled but root not set; skipping canonicalization''])
         else if \<not> filepath_IsAbs (Root c) then
           (case filepath_Abs getwd (Root c) of
              Some absRoot \<Rightarrow> (c\<lparr>Root := absRoot\<rparr>, [])
            | None \<Rightarrow> (c, []))
         else (c, []))
      else (c\<lparr>fold := Some lowerCaser\<rparr>, [''unknown casefold mode; defaulting to lower'']))"

text \<open>\<^verbatim>\<open>skip\<close>: true if the path matches an exclude pattern; the error of \<^verbatim>\<open>path.Match\<close> is dropped.\<close>

fun skip_loop :: "string list \<Rightarrow> string \<Rightarrow> bool" where
  "skip_loop [] p = False"
| "skip_loop (gl # gls) p =
     (if gl = [] then skip_loop gls p
      else if fst (path_Match gl p) then True
      else skip_loop gls p)"

definition skip :: "Casefold \<Rightarrow> string \<Rightarrow> bool" where
  "skip c p = skip_loop (Exclude c) p"

text \<open>
  The two searches of \<^verbatim>\<open>canonicalFS\<close> through the entries of a directory; the empty
  string is the value of \<^verbatim>\<open>matchName\<close> when nothing was found.
\<close>

fun exactMatch :: "string list \<Rightarrow> string \<Rightarrow> string" where
  "exactMatch [] seg = []"
| "exactMatch (name # entries) seg = (if name = seg then name else exactMatch entries seg)"

fun lowerMatch :: "unicode_tables \<Rightarrow> string list \<Rightarrow> string \<Rightarrow> string" where
  "lowerMatch tabs [] lowered = []"
| "lowerMatch tabs (name # entries) lowered =
     (if strings_ToLower tabs name = lowered then name else lowerMatch tabs entries lowered)"

definition matchName :: "unicode_tables \<Rightarrow> string list \<Rightarrow> string \<Rightarrow> string" where
  "matchName tabs entries seg =
     (let name = exactMatch entries seg
      in if name = [] then lowerMatch tabs entries (strings_ToLower tabs seg) else name)"

text \<open>
  The walk of \<^verbatim>\<open>canonicalFS\<close> over the segments still to resolve, from the directory
  \<open>curDir\<close>, with the names \<open>built\<close> so far and the events \<open>tr\<close> so far:
  \<open>None\<close> when the walk gives up, and the events of all the calls made.
\<close>

fun canonicalFS_loop ::
  "unicode_tables \<Rightarrow> filesys \<Rightarrow> string \<Rightarrow> string list \<Rightarrow> string list \<Rightarrow> io_event list
     \<Rightarrow> string list option \<times> io_event list" where
  "canonicalFS_loop tabs fs curDir [] built tr = (Some built, tr)"
| "canonicalFS_loop tabs fs curDir (seg # rest) built tr =
     (case ReadDir fs curDir of
        None \<Rightarrow> (None, tr @ [EvReadDir curDir])
      | Some entries \<Rightarrow>
          let name = matchName tabs entries seg in
          if name = [] then (None, tr @ [EvReadDir curDir])
          else if rest \<noteq> [] then
            (let next = filepath_Join [curDir, name] in
             case Stat fs next of
               None \<Rightarrow> (None, tr @ [EvReadDir curDir, EvStat next])
             | Some isDir \<Rightarrow>
                 if \<not> isDir then (None, tr @ [EvReadDir curDir, EvStat next])
                 else canonicalFS_loop tabs fs next rest (built @ [name])
                        (tr @ [EvReadDir curDir, EvStat next]))
          else canonicalFS_loop tabs fs curDir rest (built @ [name]) (tr @ [EvReadDir curDir]))"

text \<open>The segments that \<^verbatim>\<open>canonicalFS\<close> walks: the cleaned path without its leading slash, split at slashes.\<close>

definition segments :: "string \<Rightarrow> string list" where
  "segments clean = strings_Split (strings_TrimPrefix clean ''/'') ''/''"

definition canonicalFS ::
  "unicode_tables \<Rightarrow> filesys \<Rightarrow> Casefold \<Rightarrow> string \<Rightarrow> (string \<times> bool) \<times> io_event list" where
  "canonicalFS tabs fs c p =
     (if Root c = [] then ((p, False), [])
      else
        let clean = path_Clean p in
        if \<not> strings_HasPrefix clean ''/'' then ((p, False), [])
        else if clean = ''/'' then ((p, False), [])
        else
          let segs = segments clean in
          if ''..'' \<in> set segs then ((p, False), [])
          else
            (case canonicalFS_loop tabs fs (Root c) segs [] [] of
               (None, tr) \<Rightarrow> ((p, False), tr)
             | (Some built, tr) \<Rightarrow> ((''/'' @ strings_Join built ''/'', True), tr)))"

text \<open>
  The part of \<^verbatim>\<open>http.Request\<close> that the handler reads or writes, and the query of the
  URL beside it. \<^verbatim>\<open>Header.Set\<close> stores a header under its canonical key.
\<close>

record Request =
  URL_Path :: string
  URL_RawQuery :: string
  RequestURI :: string
  Header :: "string \<rightharpoonup> string list"

definition X_Original_URI :: string where
  "X_Original_URI = ''X-Original-Uri''"

text \<open>
  The \<^verbatim>\<open>switch\<close> of \<^verbatim>\<open>ServeHTTP\<close> that computes \<^verbatim>\<open>transformed\<close>, with the events of
  the file system calls. Calling the method of a \<^verbatim>\<open>nil\<close> \<open>fold\<close> panics.
\<close>

definition transformed :: "unicode_tables \<Rightarrow> filesys \<Rightarrow> Casefold \<Rightarrow> string \<Rightarrow> error + string \<times> io_event list" where
  "transformed tabs fs c orig =
     (let mode = strings_ToLower tabs (strings_TrimSpace (Mode c)) in
      if mode = [] \<or> mode = ''lower'' \<or> mode = ''fold'' then
        (case fold c of
           None \<Rightarrow> Inl NilPointerDereference
         | Some k \<Rightarrow> Inr (caser_String tabs k orig, []))
      else if mode = ''fs'' then
        (case canonicalFS tabs fs c orig of
           ((canon, ok), tr) \<Rightarrow> if ok then Inr (canon, tr) else Inr (orig, tr))
      else Inr (orig, []))"

text \<open>
  \<^verbatim>\<open>ServeHTTP\<close> ends by calling the next handler; its result is that call: the
  response header and the request handed on, and the file system events on the way.
\<close>

record handoff =
  resp_Header :: "string \<rightharpoonup> string list"
  req :: Request
  io :: "io_event list"

definition ServeHTTP ::
  "unicode_tables \<Rightarrow> filesys \<Rightarrow> Casefold \<Rightarrow> (string \<rightharpoonup> string list) \<Rightarrow> Request \<Rightarrow> error + handoff" where
  "ServeHTTP tabs fs c w r =
     (if URL_Path r = [] \<or> URL_Path r = ''/'' then Inr \<lparr>resp_Header = w, req = r, io = []\<rparr>
      else if skip c (URL_Path r) then Inr \<lparr>resp_Header = w, req = r, io = []\<rparr>
      else
        (case transformed tabs fs c (URL_Path r) of
           Inl e \<Rightarrow> Inl e
         | Inr t \<Rightarrow>
             if fst t \<noteq> URL_Path r then
               Inr \<lparr>resp_Header = w(X_Original_URI \<mapsto> [URL_Path r]),
                    req = r\<lparr>Header := (Header r)(X_Original_URI \<mapsto> [URL_Path r]),
                            URL_Path := fst t, RequestURI := fst t\<rparr>,
                    io = snd t\<rparr>
             else Inr \<lparr>resp_Header = w, req = r, io = snd t\<rparr>))"

text \<open>
  The decision of the handler on a path, as the specification names it: the path
  handed on is the original one or a new one.
\<close>

datatype RewriteOutcome = UNCHANGED | REWRITTEN string

definition decide ::
  "unicode_tables \<Rightarrow> filesys \<Rightarrow> Casefold \<Rightarrow> string \<Rightarrow> error + RewriteOutcome \<times> io_event list" where
  "decide tabs fs c p =
     (case ServeHTTP tabs fs c Map.empty
             \<lparr>URL_Path = p, URL_RawQuery = [], RequestURI = p, Header = Map.empty\<rparr> of
        Inl e \<Rightarrow> Inl e
      | Inr h \<Rightarrow>
          Inr (if URL_Path (req h) = p then UNCHANGED else REWRITTEN (URL_Path (req h)), io h))"

section \<open>Predicates of the statements\<close>

text \<open>
  A text without the characters that \<^verbatim>\<open>path.Match\<close> reads as operators: star,
  question mark, opening bracket and backslash.
\<close>

definition literal :: "string \<Rightarrow> bool" where
  "literal s = list_all (\<lambda>ch. ch \<noteq> CHR ''*'' \<and> ch \<noteq> CHR ''?'' \<and> ch \<noteq> CHR ''['' \<and> ch \<noteq> CHR 0x5C) s"

text \<open>
  A pattern of literal characters and stars: it has no question mark, no character
  class and no escape. \<open>slashes\<close> counts the slashes of a text.
\<close>

definition plain :: "string \<Rightarrow> bool" where
  "plain s = list_all (\<lambda>ch. ch \<noteq> CHR ''?'' \<and> ch \<noteq> CHR ''['' \<and> ch \<noteq> CHR 0x5C) s"

definition slashes :: "string \<Rightarrow> nat" where
  "slashes s = length (filter (\<lambda>ch. ch = CHR ''/'') s)"

text \<open>
  Names of directory entries never contain a slash (on every file system Go runs on,
  \<^verbatim>\<open>os.ReadDir\<close> returns base names).
\<close>

definition entry_names_wf :: "filesys \<Rightarrow> bool" where
  "entry_names_wf fs = (\<forall>d es. ReadDir fs d = Some es \<longrightarrow> (\<forall>n\<in>set es. CHR ''/'' \<notin> set n))"

text \<open>
  A cleaned path under construction that is rooted and has no \<^verbatim>\<open>..\<close> element: the
  invariant of the loop of \<^verbatim>\<open>path.Clean\<close> on a path that begins with a slash.
\<close>

definition no_dotdot :: "string \<Rightarrow> bool" where
  "no_dotdot out = (out \<noteq> [] \<and> hd out = CHR ''/'' \<and> ''..'' \<notin> set (Split_loop ''/'' [] (tl out)))"







section \<open>Sample data\<close>

text \<open>
  Tables that follow Unicode on the Latin-1 runes (the capital letters, the sharp s
  and the micro sign) and leave every other rune alone, and the directory tree of the test
  \<^verbatim>\<open>TestCasefoldFSMode\<close> (a directory \<^verbatim>\<open>scripts\<close> holding the file
  \<^verbatim>\<open>MyScript.bat\<close>) under the root \<^verbatim>\<open>/srv\<close>. They are used to run the handler on
  concrete requests.
\<close>

definition latin1Tables :: unicode_tables where
  "latin1Tables =
     \<lparr>ToLowerTab = (\<lambda>r. if 192 \<le> r \<and> r \<le> 222 \<and> r \<noteq> 215 then r + 32 else r),
      FoldTab = (\<lambda>r. if r = 223 then ''ss''
                      else if r = 181 then utf8_AppendRune 956
                      else if 192 \<le> r \<and> r \<le> 222 \<and> r \<noteq> 215 then utf8_AppendRune (r + 32)
                      else utf8_AppendRune r)\<rparr>"

definition testFS :: filesys where
  "testFS =
     \<lparr>ReadDir = (\<lambda>d. if d = ''/srv'' then Some [''scripts'']
                      else if d = ''/srv/scripts'' then Some [''MyScript.bat'']
                      else None),
      Stat = (\<lambda>p. if p = ''/srv'' \<or> p = ''/srv/scripts'' then Some True
                   else if p = ''/srv/scripts/MyScript.bat'' then Some False
                   else None)\<rparr>"

definition testConfig :: "string \<Rightarrow> Casefold" where
  "testConfig mode = \<lparr>Mode = mode, Root = ''/srv'', Exclude = [''/API/*''], fold = None\<rparr>"

definition testRequest :: Request where
  "testRequest =
     \<lparr>URL_Path = ''/HeLLo/World'', URL_RawQuery = ''Key=Value'',
      RequestURI = ''/HeLLo/World?Key=Value'', Header = Map.empty\<rparr>"

section \<open>Properties of the handler\<close>

subsection \<open>Leading slash\<close>

lemma chunks_ascii: "byte c < 128 \<Longrightarrow> chunks (c # cs) = (byte c, [c]) # chunks cs"
  by (simp add: Let_def)

lemma HasPrefix_slash: "strings_HasPrefix p ''/'' \<longleftrightarrow> (\<exists>t. p = CHR ''/'' # t)"
  by (cases p) (auto simp: strings_HasPrefix_def)

lemma lowerByte_slash: "lowerByte (CHR ''/'') = CHR ''/''"
  by (simp add: lowerByte_def)

lemma strings_ToLower_slash:
  "\<exists>t'. strings_ToLower tabs (CHR ''/'' # t) = CHR ''/'' # t'"
  by (simp add: strings_ToLower_def strings_Map_def chunks_ascii lowerByte_slash
        unicode_ToLower_def RuneError_def)

lemma cases_Fold_String_slash:
  "\<exists>t'. cases_Fold_String tabs (CHR ''/'' # t) = CHR ''/'' # t'"
  by (simp add: cases_Fold_String_def chunks_ascii lowerByte_slash RuneSelf_def)

lemma caser_String_slash:
  "strings_HasPrefix p ''/'' \<Longrightarrow> strings_HasPrefix (caser_String tabs k p) ''/''"
  using strings_ToLower_slash cases_Fold_String_slash
  by (cases k) (fastforce simp: HasPrefix_slash)+

lemma canonicalFS_ok:
  "canonicalFS tabs fs c p = ((q, True), tr) \<Longrightarrow>
     \<exists>built. canonicalFS_loop tabs fs (Root c) (segments (path_Clean p)) [] [] = (Some built, tr)
       \<and> q = ''/'' @ strings_Join built ''/''"
  by (auto simp: canonicalFS_def Let_def split: if_splits prod.splits option.splits)

lemma canonicalFS_fail:
  "canonicalFS tabs fs c p = ((q, False), tr) \<Longrightarrow> q = p"
  by (auto simp: canonicalFS_def Let_def split: if_splits prod.splits option.splits)

lemma transformed_slash:
  assumes "strings_HasPrefix p ''/''" and "transformed tabs fs c p = Inr t"
  shows "strings_HasPrefix (fst t) ''/''"
proof -
  define mode where "mode = strings_ToLower tabs (strings_TrimSpace (Mode c))"
  show ?thesis
  proof (cases "mode = [] \<or> mode = ''lower'' \<or> mode = ''fold''")
    case True
    with assms(2) obtain k where "fold c = Some k" and "fst t = caser_String tabs k p"
      by (auto simp: transformed_def mode_def Let_def split: option.splits)
    with assms(1) show ?thesis
      by (simp add: caser_String_slash)
  next
    case False
    obtain q ok tr where r: "canonicalFS tabs fs c p = ((q, ok), tr)"
      by (metis prod.collapse)
    show ?thesis
    proof (cases "mode = ''fs'' \<and> ok")
      case True
      with False assms(2) r have "fst t = q"
        by (auto simp: transformed_def mode_def Let_def)
      moreover from True r canonicalFS_ok [of tabs fs c p q tr]
      have "strings_HasPrefix q ''/''"
        by (auto simp: strings_HasPrefix_def)
      ultimately show ?thesis by simp
    next
      case other: False
      with False assms(2) r have "fst t = p"
        by (auto simp: transformed_def mode_def Let_def split: if_splits)
      with assms(1) show ?thesis by simp
    qed
  qed
qed

text \<open>
  Claim C7 (invariant of the rewrite outcome). The request path begins with a slash, as
  the specification requires of every request path, and the response carries no
  \<^verbatim>\<open>X-Original-URI\<close> header yet. Then \<^verbatim>\<open>ServeHTTP\<close> either hands the response header
  and the request on as it received them, or it rewrites: it sets the header to the
  original path on the response and on the request, and the path it hands on (also
  written to \<^verbatim>\<open>RequestURI\<close>) differs from the original path and begins with a slash.
  So the header is set exactly when the path has changed, and a decision
  \<open>REWRITTEN q\<close> has \<open>q\<close> different from the original and beginning with a slash.
  The configuration \<open>c\<close> is arbitrary, so this covers the modes \<^verbatim>\<open>lower\<close>,
  \<^verbatim>\<open>fold\<close> and \<^verbatim>\<open>fs\<close> (and every other mode string), whatever the Unicode tables
  and the file system are.
\<close>

theorem rewritten_differs_and_rooted:
  assumes "strings_HasPrefix (URL_Path r) ''/''" and "w X_Original_URI = None"
    and "ServeHTTP tabs fs c w r = Inr h"
  shows "((resp_Header h = w \<and> req h = r)
          \<or> (resp_Header h X_Original_URI = Some [URL_Path r]
             \<and> Header (req h) X_Original_URI = Some [URL_Path r]
             \<and> RequestURI (req h) = URL_Path (req h)
             \<and> URL_Path (req h) \<noteq> URL_Path r
             \<and> strings_HasPrefix (URL_Path (req h)) ''/''))
         \<and> (resp_Header h X_Original_URI \<noteq> None \<longleftrightarrow> URL_Path (req h) \<noteq> URL_Path r)
         \<and> (decide tabs fs c (URL_Path r) = Inr (REWRITTEN q, tr)
              \<longrightarrow> q \<noteq> URL_Path r \<and> strings_HasPrefix q ''/'')"
proof -
  have u: "(resp_Header h = w \<and> req h = r)
         \<or> (resp_Header h X_Original_URI = Some [URL_Path r]
            \<and> Header (req h) X_Original_URI = Some [URL_Path r]
            \<and> RequestURI (req h) = URL_Path (req h)
            \<and> URL_Path (req h) \<noteq> URL_Path r
            \<and> strings_HasPrefix (URL_Path (req h)) ''/'')"
    using assms transformed_slash [of "URL_Path r" tabs fs c]
    by (auto simp: ServeHTTP_def split: if_splits sum.splits)
  have v: "resp_Header h X_Original_URI \<noteq> None \<longleftrightarrow> URL_Path (req h) \<noteq> URL_Path r"
    using u assms(2) by auto
  have d: "q \<noteq> URL_Path r \<and> strings_HasPrefix q ''/''"
    if "decide tabs fs c (URL_Path r) = Inr (REWRITTEN q, tr)"
    using that assms(1) transformed_slash [of "URL_Path r" tabs fs c]
    by (auto simp: decide_def ServeHTTP_def split: if_splits sum.splits)
  from u v d show ?thesis by blast
qed

theorem rewritten_differs_and_rooted_witness:
  "strings_HasPrefix (URL_Path testRequest) ''/'' \<and>
   (Map.empty :: string \<rightharpoonup> string list) X_Original_URI = None \<and>
   (case ServeHTTP latin1Tables testFS (fst (Provision latin1Tables None (testConfig ''lower'')))
           Map.empty testRequest of
      Inl e \<Rightarrow> False
    | Inr h \<Rightarrow> resp_Header h X_Original_URI = Some [''/HeLLo/World'']
        \<and> URL_Path (req h) = ''/hello/world''
        \<and> URL_Path (req h) \<noteq> URL_Path testRequest
        \<and> strings_HasPrefix (URL_Path (req h)) ''/'')"
proof -
  have h1: "strings_HasPrefix (URL_Path testRequest) ''/''"
    by code_simp
  have h2: "(Map.empty :: string \<rightharpoonup> string list) X_Original_URI = None"
    by simp
  obtain h where h: "ServeHTTP latin1Tables testFS
      (fst (Provision latin1Tables None (testConfig ''lower''))) Map.empty testRequest = Inr h"
    and hd: "resp_Header h X_Original_URI = Some [''/HeLLo/World'']"
    and p: "URL_Path (req h) = ''/hello/world''"
  proof -
    have "case ServeHTTP latin1Tables testFS
        (fst (Provision latin1Tables None (testConfig ''lower''))) Map.empty testRequest of
        Inl e \<Rightarrow> False
      | Inr h \<Rightarrow> resp_Header h X_Original_URI = Some [''/HeLLo/World'']
          \<and> URL_Path (req h) = ''/hello/world''"
      by code_simp
    then show ?thesis
      using that by (auto split: sum.splits)
  qed
  have "resp_Header h \<noteq> Map.empty"
    using hd by auto
  with rewritten_differs_and_rooted [OF h1 h2 h, where q = "[]" and tr = "[]"]
  have "URL_Path (req h) \<noteq> URL_Path testRequest \<and> strings_HasPrefix (URL_Path (req h)) ''/''"
    by blast
  with h1 h2 h hd p show ?thesis by simp
qed

subsection \<open>Short circuits\<close>

text \<open>
  Claim C9. For the empty path and for the path \<^verbatim>\<open>/\<close> the decision is \<open>UNCHANGED\<close>
  and no file system call is made, whatever the mode, the exclusions, the root and the
  field \<open>fold\<close> of the configuration are (even \<^verbatim>\<open>nil\<close>, which would panic if the
  transformation were reached): the handler hands the response header and the request on
  as it received them.
\<close>

theorem root_and_empty_unchanged:
  "p = [] \<or> p = ''/'' \<Longrightarrow>
     decide tabs fs c p = Inr (UNCHANGED, []) \<and>
     ServeHTTP tabs fs c w (r\<lparr>URL_Path := p\<rparr>)
       = Inr \<lparr>resp_Header = w, req = r\<lparr>URL_Path := p\<rparr>, io = []\<rparr>"
  by (auto simp: decide_def ServeHTTP_def)

theorem root_and_empty_unchanged_witness:
  "(''/'' = [] \<or> ''/'' = ''/'') \<and>
   decide latin1Tables testFS (testConfig ''fs'') ''/'' = Inr (UNCHANGED, []) \<and>
   ServeHTTP latin1Tables testFS (testConfig ''fs'') Map.empty (testRequest\<lparr>URL_Path := ''/''\<rparr>)
     = Inr \<lparr>resp_Header = Map.empty, req = testRequest\<lparr>URL_Path := ''/''\<rparr>, io = []\<rparr>"
proof -
  have h: "''/'' = [] \<or> ''/'' = ''/''"
    by simp
  from root_and_empty_unchanged [OF h] h show ?thesis
    by blast
qed

text \<open>
  Claim C8. When the mode is \<^verbatim>\<open>fs\<close> (after trimming and lower-casing, as the handler
  reads it) and the root is empty, \<^verbatim>\<open>Provision\<close> leaves the configuration as it is and
  logs the warning, and for every request path the decision is \<open>UNCHANGED\<close> with no
  file system call: \<^verbatim>\<open>canonicalFS\<close> returns the original path and \<open>False\<close> before
  any I/O.
\<close>

theorem fs_without_root_passthrough:
  assumes "strings_ToLower tabs (strings_TrimSpace (Mode c)) = ''fs''" and "Root c = []"
  shows "Provision tabs getwd c
           = (c, [''fs mode enabled but root not set; skipping canonicalization'']) \<and>
         decide tabs fs c p = Inr (UNCHANGED, []) \<and>
         canonicalFS tabs fs c p = ((p, False), [])"
  using assms
  by (auto simp: Provision_def decide_def ServeHTTP_def transformed_def canonicalFS_def)

theorem fs_without_root_passthrough_witness:
  "strings_ToLower latin1Tables (strings_TrimSpace (Mode ((testConfig '' FS '')\<lparr>Root := []\<rparr>))) = ''fs'' \<and>
   Root ((testConfig '' FS '')\<lparr>Root := []\<rparr>) = [] \<and>
   decide latin1Tables testFS ((testConfig '' FS '')\<lparr>Root := []\<rparr>) ''/scripts/myscript.bat''
     = Inr (UNCHANGED, [])"
proof -
  have h1: "strings_ToLower latin1Tables (strings_TrimSpace (Mode ((testConfig '' FS '')\<lparr>Root := []\<rparr>))) = ''fs''"
    by code_simp
  have h2: "Root ((testConfig '' FS '')\<lparr>Root := []\<rparr>) = []"
    by simp
  from fs_without_root_passthrough [OF h1 h2] h1 h2 show ?thesis
    by blast
qed

subsection \<open>Frame of the rewrite\<close>

text \<open>
  \<^verbatim>\<open>ServeHTTP\<close> assigns \<^verbatim>\<open>URL.Path\<close>, \<^verbatim>\<open>RequestURI\<close> and the header, and nothing
  else of the request.
\<close>

lemma ServeHTTP_frame:
  "ServeHTTP tabs fs c w r = Inr h \<Longrightarrow>
     req h = r\<lparr>URL_Path := URL_Path (req h), RequestURI := RequestURI (req h),
               Header := Header (req h)\<rparr>"
  by (auto simp: ServeHTTP_def split: if_splits sum.splits)

text \<open>
  Claim C4 says that only the path is transformed and that the query of the request is
  passed through untouched. The handler run in the mode \<^verbatim>\<open>lower\<close> on the request
  \<^verbatim>\<open>/HeLLo/World?Key=Value\<close>: the path becomes \<^verbatim>\<open>/hello/world\<close> and
  \<^verbatim>\<open>URL.RawQuery\<close> is kept, but \<^verbatim>\<open>RequestURI\<close>, which held the path and the query,
  is overwritten with the new path alone and has lost the query.
\<close>

theorem request_uri_evaluation:
  "(case ServeHTTP latin1Tables testFS (fst (Provision latin1Tables None (testConfig ''lower'')))
           Map.empty testRequest of
      Inl e \<Rightarrow> False
    | Inr h \<Rightarrow> URL_Path (req h) = ''/hello/world''
        \<and> URL_RawQuery (req h) = ''Key=Value''
        \<and> RequestURI (req h) = ''/hello/world'') \<and>
   RequestURI testRequest = ''/HeLLo/World?Key=Value''"
  by code_simp

subsection \<open>Exclusions\<close>

lemma path_Match_empty: "path_Match [] name = (name = [], None)"
  by (subst path_Match.simps) simp

lemma path_Match_nonempty:
  assumes "pattern \<noteq> []" and "scanChunk pattern = (star, chunk, rest)"
  shows "path_Match pattern name =
     (if star \<and> chunk = [] then (CHR ''/'' \<notin> set name, None)
      else
        (case matchChunk chunk name of
           Inl e \<Rightarrow> (False, Some e)
         | Inr m \<Rightarrow>
             if snd m \<and> (fst m = [] \<or> rest \<noteq> []) then path_Match rest (fst m)
             else if star then
               (case starLoop chunk (rest = []) name of
                  Inl e \<Rightarrow> (False, Some e)
                | Inr None \<Rightarrow> (False, checkRest rest)
                | Inr (Some t) \<Rightarrow> path_Match rest t)
             else (False, checkRest rest)))"
  by (subst path_Match.simps) (simp only: assms if_False prod.case)

lemma path_Match_err:
  "fst (path_Match pattern name) \<Longrightarrow> snd (path_Match pattern name) = None"
proof (induction pattern name rule: path_Match.induct)
  case (1 pattern name)
  show ?case
  proof (cases "pattern = []")
    case True
    then show ?thesis by (simp add: path_Match_empty)
  next
    case ne: False
    obtain star chunk rest where sc: "scanChunk pattern = (star, chunk, rest)"
      by (cases "scanChunk pattern") auto
    note unf = path_Match_nonempty [OF ne sc, of name]
    show ?thesis
    proof (cases "star \<and> chunk = []")
      case True
      have "path_Match pattern name = (CHR ''/'' \<notin> set name, None)"
        by (simp only: unf if_P [OF True])
      then show ?thesis by simp
    next
      case ns: False
      show ?thesis
      proof (cases "matchChunk chunk name")
        case (Inl e)
        have "path_Match pattern name = (False, Some e)"
          by (simp only: unf if_not_P [OF ns] Inl sum.case)
        with "1.prems" show ?thesis by simp
      next
        case (Inr m)
        show ?thesis
        proof (cases "snd m \<and> (fst m = [] \<or> rest \<noteq> [])")
          case True
          have "path_Match pattern name = path_Match rest (fst m)"
            by (simp only: unf if_not_P [OF ns] Inr sum.case if_P [OF True])
          with "1.IH"(1) [OF ne sc [symmetric] refl ns Inr True] "1.prems" show ?thesis
            by simp
        next
          case nm: False
          show ?thesis
          proof (cases star)
            case star: True
            show ?thesis
            proof (cases "starLoop chunk (rest = []) name")
              case (Inl e)
              have "path_Match pattern name = (False, Some e)"
                by (simp only: unf if_not_P [OF ns] Inr sum.case if_not_P [OF nm] if_P [OF star] Inl)
              with "1.prems" show ?thesis by simp
            next
              case sl: (Inr x)
              show ?thesis
              proof (cases x)
                case None
                have "path_Match pattern name = (False, checkRest rest)"
                  by (simp only: unf if_not_P [OF ns] Inr sum.case if_not_P [OF nm] if_P [OF star]
                        sl None option.case)
                with "1.prems" show ?thesis by simp
              next
                case (Some t)
                have "path_Match pattern name = path_Match rest t"
                  by (simp only: unf if_not_P [OF ns] Inr sum.case if_not_P [OF nm] if_P [OF star]
                        sl Some option.case)
                with "1.IH"(2) [OF ne sc [symmetric] refl ns Inr nm star sl Some] "1.prems"
                show ?thesis
                  by simp
              qed
            qed
          next
            case False
            have "path_Match pattern name = (False, checkRest rest)"
              by (simp only: unf if_not_P [OF ns] Inr sum.case if_not_P [OF nm] if_not_P [OF False])
            with "1.prems" show ?thesis by simp
          qed
        qed
      qed
    qed
  qed
qed

lemma skip_loop_iff:
  "skip_loop gls p \<longleftrightarrow> (\<exists>gl\<in>set gls. gl \<noteq> [] \<and> path_Match gl p = (True, None))"
proof (induction gls)
  case Nil
  show ?case by simp
next
  case (Cons gl gls)
  have "fst (path_Match gl p) \<longleftrightarrow> path_Match gl p = (True, None)"
    using path_Match_err [of gl p] by (cases "path_Match gl p") auto
  with Cons show ?case by auto
qed

lemma transformed_no_pattern_error: "transformed tabs fs c p \<noteq> Inl ErrBadPattern"
  by (simp add: transformed_def Let_def split: option.splits prod.splits)

lemma decide_no_pattern_error: "decide tabs fs c p \<noteq> Inl ErrBadPattern"
  using transformed_no_pattern_error [of tabs fs c p]
  by (auto simp: decide_def ServeHTTP_def split: sum.splits)

text \<open>
  Claim C5. If some pattern of the exclusion list matches the path (\<^verbatim>\<open>path.Match\<close>
  answers true), the decision is \<open>UNCHANGED\<close> and no file system call is made,
  whatever the mode, the root and the field \<open>fold\<close> are. Malformed patterns count as
  not matching and raise nothing: \<^verbatim>\<open>skip\<close> is true exactly when a non-empty pattern
  matches without error, and the decision never fails with \<open>ErrBadPattern\<close>
  (for every configuration \<open>c'\<close> and path \<open>p'\<close>).
\<close>

theorem excluded_path_unchanged:
  assumes "gl \<in> set (Exclude c)" and "fst (path_Match gl p)"
  shows "decide tabs fs c p = Inr (UNCHANGED, []) \<and>
         (skip c' p' \<longleftrightarrow> (\<exists>g\<in>set (Exclude c'). g \<noteq> [] \<and> path_Match g p' = (True, None))) \<and>
         decide tabs fs c' p' \<noteq> Inl ErrBadPattern"
proof -
  have "decide tabs fs c p = Inr (UNCHANGED, [])"
  proof (cases "p = [] \<or> p = ''/''")
    case True
    then show ?thesis by (auto simp: decide_def ServeHTTP_def)
  next
    case False
    with assms(2) have "gl \<noteq> []"
      by (auto simp: path_Match_empty)
    moreover from assms(2) have "path_Match gl p = (True, None)"
      using path_Match_err [of gl p] by (cases "path_Match gl p") auto
    ultimately have "skip c p"
      using assms(1) by (auto simp: skip_def skip_loop_iff)
    then show ?thesis by (simp add: decide_def ServeHTTP_def)
  qed
  then show ?thesis
    by (simp add: skip_def skip_loop_iff decide_no_pattern_error)
qed

theorem excluded_path_unchanged_witness:
  "''/API/*'' \<in> set (Exclude (testConfig ''fs'')) \<and>
   fst (path_Match ''/API/*'' ''/API/MixedCase'') \<and>
   decide latin1Tables testFS (testConfig ''fs'') ''/API/MixedCase'' = Inr (UNCHANGED, []) \<and>
   path_Match ''/API/[M'' ''/API/MixedCase'' = (False, Some ErrBadPattern) \<and>
   \<not> skip ((testConfig ''fs'')\<lparr>Exclude := [''/API/[M'']\<rparr>) ''/API/MixedCase''"
proof -
  have h1: "''/API/*'' \<in> set (Exclude (testConfig ''fs''))"
    by (simp add: testConfig_def)
  have h2: "fst (path_Match ''/API/*'' ''/API/MixedCase'')"
    by code_simp
  have h3: "path_Match ''/API/[M'' ''/API/MixedCase'' = (False, Some ErrBadPattern)"
    by code_simp
  note r = excluded_path_unchanged [OF h1 h2, of latin1Tables testFS
      "(testConfig ''fs'')\<lparr>Exclude := [''/API/[M'']\<rparr>" "''/API/MixedCase''"]
  from r have "\<not> skip ((testConfig ''fs'')\<lparr>Exclude := [''/API/[M'']\<rparr>) ''/API/MixedCase''"
    by (simp add: h3)
  with r h1 h2 h3 show ?thesis
    by blast
qed

subsection \<open>Unknown mode\<close>

lemma unknown_mode_unchanged:
  assumes "strings_ToLower tabs (strings_TrimSpace (Mode c)) \<notin> {[], ''lower'', ''fold'', ''fs''}"
  shows "fold (fst (Provision tabs getwd c)) = Some lowerCaser \<and>
         decide tabs fs (fst (Provision tabs getwd c)) p = Inr (UNCHANGED, [])"
  using assms
  by (auto simp: Provision_def decide_def ServeHTTP_def transformed_def Let_def)

text \<open>
  Claim C2 says that an unknown mode behaves as \<^verbatim>\<open>lower\<close>. The handler run on the
  mode \<^verbatim>\<open>upper\<close> and the path \<^verbatim>\<open>/HeLLo/World\<close>: \<^verbatim>\<open>Provision\<close> does install the
  lower-casing implementation and logs that it defaults to lower, yet the decision is
  \<open>UNCHANGED\<close>; the same request under the mode \<^verbatim>\<open>lower\<close> is rewritten to
  \<^verbatim>\<open>/hello/world\<close>. The \<^verbatim>\<open>switch\<close> of \<^verbatim>\<open>ServeHTTP\<close> has no case for a mode that is
  not \<^verbatim>\<open>lower\<close>, \<^verbatim>\<open>fold\<close> or \<^verbatim>\<open>fs\<close> (lemma \<open>unknown_mode_unchanged\<close> above: every
  path is left unchanged then).
\<close>

theorem unknown_mode_evaluation:
  "fold (fst (Provision latin1Tables None (testConfig ''upper''))) = Some lowerCaser \<and>
   snd (Provision latin1Tables None (testConfig ''upper'')) = [''unknown casefold mode; defaulting to lower''] \<and>
   decide latin1Tables testFS (fst (Provision latin1Tables None (testConfig ''upper''))) ''/HeLLo/World''
     = Inr (UNCHANGED, []) \<and>
   decide latin1Tables testFS (fst (Provision latin1Tables None (testConfig ''lower''))) ''/HeLLo/World''
     = Inr (REWRITTEN ''/hello/world'', [])"
  by code_simp


subsection \<open>Parent segments\<close>

text \<open>
  \<^verbatim>\<open>canonicalFS\<close> looks for a \<^verbatim>\<open>..\<close> segment in \<^verbatim>\<open>path.Clean(p)\<close>, not in \<^verbatim>\<open>p\<close>. On a
  path that begins with a slash \<^verbatim>\<open>path.Clean\<close> resolves every \<^verbatim>\<open>..\<close> element, or drops it
  at the root, so none is left: the test never fires on such a path.
\<close>

lemma Split_loop_no_sep:
  "CHR ''/'' \<notin> set n \<Longrightarrow> Split_loop ''/'' cur n = [cur @ n]"
  by (induction n arbitrary: cur) (auto simp: strings_HasPrefix_def)

lemma Split_loop_append_sep:
  "Split_loop ''/'' cur (a @ CHR ''/'' # b) = Split_loop ''/'' cur a @ Split_loop ''/'' [] b"
  by (induction a arbitrary: cur) (auto simp: strings_HasPrefix_def)

lemma backtrack_stop:
  "1 \<le> w \<Longrightarrow> 1 \<le> backtrack out 1 w \<and> backtrack out 1 w \<le> w
     \<and> (backtrack out 1 w = 1 \<or> out ! backtrack out 1 w = CHR ''/'')"
proof (induction out "1::nat" w rule: backtrack.induct)
  case (1 out w)
  show ?case
  proof (cases "1 < w \<and> out ! w \<noteq> CHR ''/''")
    case True
    then have e: "backtrack out 1 w = backtrack out 1 (w - 1)"
      by (subst backtrack.simps) simp
    from True have "1 \<le> w - 1" by arith
    from "1.hyps" [OF True this] e show ?thesis by auto
  next
    case False
    then have e: "backtrack out 1 w = w"
      by (subst backtrack.simps) auto
    with False "1.prems" show ?thesis by auto
  qed
qed

lemma no_dotdot_take:
  assumes "no_dotdot out" and "1 \<le> w" and "w < length out" and "w = 1 \<or> out ! w = CHR ''/''"
  shows "no_dotdot (take w out)"
proof -
  from assms(1) obtain t where out: "out = CHR ''/'' # t"
    by (cases out) (auto simp: no_dotdot_def)
  obtain k where w: "w = Suc k" using assms(2) by (cases w) auto
  show ?thesis
  proof (cases "k = 0")
    case True
    then show ?thesis by (simp add: no_dotdot_def out w)
  next
    case False
    with assms(4) w out have sl: "t ! k = CHR ''/''" by simp
    from assms(3) w out have kl: "k < length t" by simp
    have "t = take k t @ CHR ''/'' # drop (Suc k) t"
      using kl sl by (metis id_take_nth_drop)
    then have "Split_loop ''/'' [] t = Split_loop ''/'' [] (take k t) @ Split_loop ''/'' [] (drop (Suc k) t)"
      by (metis Split_loop_append_sep)
    with assms(1) out have "''..'' \<notin> set (Split_loop ''/'' [] (take k t))"
      by (auto simp: no_dotdot_def)
    then show ?thesis by (simp add: no_dotdot_def out w)
  qed
qed

lemma no_dotdot_append:
  assumes "no_dotdot out" and "CHR ''/'' \<notin> set e" and "e \<noteq> ''..''"
  shows "no_dotdot ((if length out \<noteq> 1 then out @ ''/'' else out) @ e)"
proof -
  from assms(1) obtain t where out: "out = CHR ''/'' # t"
    by (cases out) (auto simp: no_dotdot_def)
  show ?thesis
  proof (cases "t = []")
    case True
    with assms(2,3) show ?thesis
      by (simp add: no_dotdot_def out Split_loop_no_sep)
  next
    case False
    have "Split_loop ''/'' [] (t @ CHR ''/'' # e) = Split_loop ''/'' [] t @ [e]"
      using assms(2) by (simp add: Split_loop_append_sep Split_loop_no_sep)
    with assms(1,3) False show ?thesis
      by (simp add: no_dotdot_def out)
  qed
qed

lemma element_not_dotdot:
  assumes "\<not> (c = CHR ''.'' \<and> (cs = [] \<or> hd cs = CHR ''/''))"
    and "\<not> (c = CHR ''.'' \<and> hd cs = CHR ''.'' \<and> (tl cs = [] \<or> hd (tl cs) = CHR ''/''))"
  shows "c # takeWhile (\<lambda>x. x \<noteq> CHR ''/'') cs \<noteq> ''..''"
proof
  assume e: "c # takeWhile (\<lambda>x. x \<noteq> CHR ''/'') cs = ''..''"
  then have c: "c = CHR ''.''" and tw: "takeWhile (\<lambda>x. x \<noteq> CHR ''/'') cs = ''.''" by simp_all
  from tw obtain d ds where cs: "cs = d # ds" by (cases cs) auto
  from tw cs have d: "d = CHR ''.''" by (auto split: if_splits)
  from tw cs d have "takeWhile (\<lambda>x. x \<noteq> CHR ''/'') ds = []" by simp
  then have "ds = [] \<or> hd ds = CHR ''/''" by (cases ds) (auto split: if_splits)
  with assms(2) c cs d show False by simp
qed

lemma Clean_step_no_dotdot:
  assumes "no_dotdot out" and "Clean_step True c cs out 1 = (s, out', d)"
  shows "no_dotdot out' \<and> d = 1"
proof -
  consider (slash) "c = CHR ''/''"
    | (dot) "c \<noteq> CHR ''/''" "c = CHR ''.'' \<and> (cs = [] \<or> hd cs = CHR ''/'')"
    | (dotdot) "c \<noteq> CHR ''/''" "\<not> (c = CHR ''.'' \<and> (cs = [] \<or> hd cs = CHR ''/''))"
        "c = CHR ''.'' \<and> hd cs = CHR ''.'' \<and> (tl cs = [] \<or> hd (tl cs) = CHR ''/'')"
    | (elem) "c \<noteq> CHR ''/''" "\<not> (c = CHR ''.'' \<and> (cs = [] \<or> hd cs = CHR ''/''))"
        "\<not> (c = CHR ''.'' \<and> hd cs = CHR ''.'' \<and> (tl cs = [] \<or> hd (tl cs) = CHR ''/''))"
    by blast
  then show ?thesis
  proof cases
    case slash
    with assms show ?thesis by (simp add: Clean_step_def)
  next
    case dot
    with assms show ?thesis by (simp add: Clean_step_def)
  next
    case dotdot
    show ?thesis
    proof (cases "1 < length out")
      case True
      with dotdot assms(2) have o: "out' = take (backtrack out 1 (length out - 1)) out" and d: "d = 1"
        by (auto simp add: Clean_step_def)
      from True have "1 \<le> length out - 1" by arith
      from backtrack_stop [OF this, of out]
      have b: "1 \<le> backtrack out 1 (length out - 1)"
        "backtrack out 1 (length out - 1) \<le> length out - 1"
        "backtrack out 1 (length out - 1) = 1 \<or> out ! backtrack out 1 (length out - 1) = CHR ''/''"
        by blast+
      from b(2) True have "backtrack out 1 (length out - 1) < length out" by arith
      from no_dotdot_take [OF assms(1) b(1) this b(3)]
      have "no_dotdot (take (backtrack out 1 (length out - 1)) out)" .
      with o d show ?thesis by simp
    next
      case False
      with dotdot assms show ?thesis by (simp add: Clean_step_def)
    qed
  next
    case elem
    let ?e = "c # takeWhile (\<lambda>x. x \<noteq> CHR ''/'') cs"
    from elem assms(2) have o: "out' = (if length out \<noteq> 1 then out @ ''/'' else out) @ ?e" and d: "d = 1"
      by (auto simp add: Clean_step_def)
    have "CHR ''/'' \<notin> set ?e" using elem(1) by (auto dest: set_takeWhileD)
    from no_dotdot_append [OF assms(1) this element_not_dotdot [OF elem(2,3)]] o d
    show ?thesis by simp
  qed
qed

lemma Clean_loop_no_dotdot:
  "no_dotdot out \<Longrightarrow> no_dotdot (Clean_loop True s out 1)"
proof (induction s arbitrary: out rule: length_induct)
  case (1 s)
  show ?case
  proof (cases s)
    case Nil
    with "1.prems" show ?thesis by simp
  next
    case (Cons c cs)
    obtain s' out' d where st: "Clean_step True c cs out 1 = (s', out', d)"
      by (cases "Clean_step True c cs out 1") auto
    from Clean_step_no_dotdot [OF "1.prems" st] have o: "no_dotdot out'" and d: "d = 1" by simp_all
    from Clean_step_shorter [OF st [symmetric]] Cons have "length s' < length s" by simp
    with "1.IH" o have "no_dotdot (Clean_loop True s' out' 1)" by blast
    with Cons st d show ?thesis by simp
  qed
qed

lemma rooted_Clean_no_dotdot:
  "strings_HasPrefix p ''/'' \<Longrightarrow> ''..'' \<notin> set (segments (path_Clean p))"
proof -
  assume "strings_HasPrefix p ''/''"
  then obtain t where p: "p = CHR ''/'' # t" by (auto simp: HasPrefix_slash)
  have "no_dotdot ''/''" by (simp add: no_dotdot_def)
  from Clean_loop_no_dotdot [OF this, of t]
  have n: "no_dotdot (Clean_loop True t ''/'' 1)" .
  then have c: "path_Clean p = Clean_loop True t ''/'' 1"
    by (simp add: path_Clean_def p no_dotdot_def)
  from n obtain u where u: "Clean_loop True t ''/'' 1 = CHR ''/'' # u"
    by (cases "Clean_loop True t ''/'' 1") (auto simp: no_dotdot_def)
  from n u show ?thesis
    by (simp add: c segments_def strings_TrimPrefix_def strings_HasPrefix_def strings_Split_def no_dotdot_def)
qed

text \<open>
  Claim C1 says that a path with a \<^verbatim>\<open>..\<close> segment fails without any directory read.
  \<^verbatim>\<open>canonicalFS\<close> run on two such paths under the root \<^verbatim>\<open>/srv\<close>: the test for
  \<^verbatim>\<open>..\<close> is made on the segments of \<^verbatim>\<open>path.Clean(p)\<close>, where \<^verbatim>\<open>/x/../SCRIPTS\<close> has
  become \<^verbatim>\<open>/SCRIPTS\<close> and \<^verbatim>\<open>/scripts/../../etc\<close> has become \<^verbatim>\<open>/etc\<close>, so it does not
  fire. The first path is resolved against the root directory and rewritten to
  \<^verbatim>\<open>/scripts\<close>; the second makes the handler list the root directory before it fails.
\<close>

theorem dotdot_path_evaluation:
  "''..'' \<in> set (segments ''/x/../SCRIPTS'') \<and>
   canonicalFS latin1Tables testFS (testConfig ''fs'') ''/x/../SCRIPTS''
     = ((''/scripts'', True), [EvReadDir ''/srv'']) \<and>
   decide latin1Tables testFS (fst (Provision latin1Tables None (testConfig ''fs''))) ''/x/../SCRIPTS''
     = Inr (REWRITTEN ''/scripts'', [EvReadDir ''/srv'']) \<and>
   ''..'' \<in> set (segments ''/scripts/../../etc'') \<and>
   canonicalFS latin1Tables testFS (testConfig ''fs'') ''/scripts/../../etc''
     = ((''/scripts/../../etc'', False), [EvReadDir ''/srv''])"
  by code_simp

subsection \<open>The star of an exclusion pattern\<close>

lemma literal_Nil [simp]: "literal []"
  by (simp add: literal_def)

lemma literal_Cons [simp]:
  "literal (a # s) \<longleftrightarrow>
     a \<noteq> CHR ''*'' \<and> a \<noteq> CHR ''?'' \<and> a \<noteq> CHR ''['' \<and> a \<noteq> CHR 0x5C \<and> literal s"
  by (simp add: literal_def)

lemma scanChunk_scan_star: "scanChunk_scan False (CHR ''*'' # r) = 0"
  by (cases r) simp_all

lemma scanChunk_scan_literal_star:
  "literal lit \<Longrightarrow> scanChunk_scan False (lit @ CHR ''*'' # r) = length lit"
proof (induction lit)
  case Nil
  show ?case by (simp add: scanChunk_scan_star)
next
  case (Cons a lit)
  obtain d ds where e: "lit @ CHR ''*'' # r = d # ds"
    by (cases "lit @ CHR ''*'' # r") auto
  from Cons have "scanChunk_scan False (d # ds) = length lit"
    by (simp add: e [symmetric])
  with Cons.prems show ?case
    by (simp add: e)
qed

lemma scanChunk_scan_literal:
  "literal lit \<Longrightarrow> scanChunk_scan False lit = length lit"
proof (induction lit)
  case Nil
  show ?case by simp
next
  case (Cons a lit)
  then show ?case by (cases lit) auto
qed

lemma literal_dropWhile: "literal lit \<Longrightarrow> dropWhile (\<lambda>c. c = CHR ''*'') lit = lit"
  by (cases lit) auto

lemma scanChunk_star_literal:
  "literal lit \<Longrightarrow> scanChunk (CHR ''*'' # lit) = (True, lit, [])"
  by (simp add: scanChunk_def Let_def literal_dropWhile scanChunk_scan_literal)

lemma scanChunk_literal_star:
  "literal lit \<Longrightarrow> lit \<noteq> [] \<Longrightarrow> scanChunk (lit @ CHR ''*'' # r) = (False, lit, CHR ''*'' # r)"
  by (cases lit) (simp_all add: scanChunk_def Let_def scanChunk_scan_literal_star [of "_ # _", simplified])

lemma matchChunk_loop_failed:
  "literal lit \<Longrightarrow> matchChunk_loop lit s True = Inr ([], False)"
  by (induction lit arbitrary: s) (simp_all add: matchChunk_step_def)

lemma matchChunk_loop_literal:
  "literal lit \<Longrightarrow>
     matchChunk_loop lit s False
       = Inr (if strings_HasPrefix s lit then (drop (length lit) s, True) else ([], False))"
proof (induction lit arbitrary: s)
  case Nil
  show ?case by (simp add: strings_HasPrefix_def)
next
  case (Cons a lit)
  show ?case
  proof (cases s)
    case Nil
    with Cons.prems show ?thesis
      by (simp add: matchChunk_step_def matchChunk_loop_failed strings_HasPrefix_def)
  next
    case (Cons x xs)
    show ?thesis
    proof (cases "a = x")
      case True
      with Cons.prems Cons.IH [of xs] Cons show ?thesis
        by (simp add: matchChunk_step_def strings_HasPrefix_def)
    next
      case False
      with Cons.prems Cons show ?thesis
        by (simp add: matchChunk_step_def matchChunk_loop_failed strings_HasPrefix_def)
    qed
  qed
qed

lemma matchChunk_literal:
  "literal lit \<Longrightarrow>
     matchChunk lit s = Inr (if strings_HasPrefix s lit then (drop (length lit) s, True) else ([], False))"
  by (simp add: matchChunk_def matchChunk_loop_literal)

lemma HasPrefix_iff: "strings_HasPrefix s pre \<longleftrightarrow> (\<exists>r. s = pre @ r)"
  by (auto simp: strings_HasPrefix_def) (metis append_take_drop_id)

lemma matchChunk_literal_other:
  assumes "literal lit" and "s \<noteq> lit"
  shows "\<exists>m. matchChunk lit s = Inr m \<and> \<not> (snd m \<and> fst m = [])"
proof (cases "strings_HasPrefix s lit")
  case True
  then obtain r where "s = lit @ r" by (auto simp: HasPrefix_iff)
  with assms(2) have "drop (length lit) s \<noteq> []" by auto
  with True assms(1) show ?thesis by (simp add: matchChunk_literal)
next
  case False
  with assms(1) show ?thesis by (simp add: matchChunk_literal)
qed

lemma starLoop_literal:
  "literal lit \<Longrightarrow>
     starLoop lit True name
       = Inr (if \<exists>r. r \<noteq> [] \<and> name = r @ lit \<and> CHR ''/'' \<notin> set r then Some [] else None)"
proof (induction name)
  case Nil
  show ?case by simp
next
  case (Cons c cs)
  show ?case
  proof (cases "c = CHR ''/''")
    case True
    then have "\<not> (\<exists>r. r \<noteq> [] \<and> c # cs = r @ lit \<and> CHR ''/'' \<notin> set r)"
      by (auto simp: Cons_eq_append_conv)
    with True show ?thesis by simp
  next
    case nsl: False
    show ?thesis
    proof (cases "cs = lit")
      case True
      then have "\<exists>r. r \<noteq> [] \<and> c # cs = r @ lit \<and> CHR ''/'' \<notin> set r"
        using nsl by (intro exI [of _ "[c]"]) simp
      moreover from True have "strings_HasPrefix cs lit" "drop (length lit) cs = []"
        by (simp_all add: strings_HasPrefix_def)
      ultimately show ?thesis
        using nsl Cons.prems by (simp add: matchChunk_literal)
    next
      case False
      obtain m where m: "matchChunk lit cs = Inr m" and nm: "\<not> (snd m \<and> fst m = [])"
        using matchChunk_literal_other [OF Cons.prems False] by blast
      from nsl m nm have step: "starLoop lit True (c # cs) = starLoop lit True cs"
        by auto
      have "(\<exists>r. r \<noteq> [] \<and> c # cs = r @ lit \<and> CHR ''/'' \<notin> set r)
              \<longleftrightarrow> (\<exists>r. r \<noteq> [] \<and> cs = r @ lit \<and> CHR ''/'' \<notin> set r)"
      proof
        assume "\<exists>r. r \<noteq> [] \<and> c # cs = r @ lit \<and> CHR ''/'' \<notin> set r"
        then obtain r where r: "r \<noteq> []" "c # cs = r @ lit" "CHR ''/'' \<notin> set r" by blast
        then obtain r' where r': "r = c # r'" by (cases r) auto
        with r False have "r' \<noteq> []" by auto
        with r r' show "\<exists>r. r \<noteq> [] \<and> cs = r @ lit \<and> CHR ''/'' \<notin> set r" by auto
      next
        assume "\<exists>r. r \<noteq> [] \<and> cs = r @ lit \<and> CHR ''/'' \<notin> set r"
        then obtain r where r: "r \<noteq> []" "cs = r @ lit" "CHR ''/'' \<notin> set r" by blast
        with nsl show "\<exists>r. r \<noteq> [] \<and> c # cs = r @ lit \<and> CHR ''/'' \<notin> set r"
          by (intro exI [of _ "c # r"]) simp
      qed
      with step Cons.IH [OF Cons.prems] show ?thesis
        by simp
    qed
  qed
qed


lemma checkRest_empty: "checkRest [] = None"
  by (subst checkRest.simps) simp

lemma checkRest_star_literal: "literal lit \<Longrightarrow> checkRest (CHR ''*'' # lit) = None"
  by (subst checkRest.simps) (simp add: scanChunk_star_literal matchChunk_literal checkRest_empty)

lemma path_Match_star_literal:
  assumes "literal lit"
  shows "path_Match (CHR ''*'' # lit) name = ((\<exists>r. name = r @ lit \<and> CHR ''/'' \<notin> set r), None)"
proof -
  note unf = path_Match_nonempty [OF _ scanChunk_star_literal [OF assms], of name, simplified]
  show ?thesis
  proof (cases "lit = []")
    case True
    with unf show ?thesis by simp
  next
    case ne: False
    show ?thesis
    proof (cases "name = lit")
      case True
      then have "strings_HasPrefix name lit" "drop (length lit) name = []"
        by (simp_all add: strings_HasPrefix_def)
      moreover from True have "\<exists>r. name = r @ lit \<and> CHR ''/'' \<notin> set r"
        by (intro exI [of _ "[]"]) simp
      ultimately show ?thesis
        using unf ne assms by (simp add: matchChunk_literal path_Match_empty)
    next
      case False
      obtain m where m: "matchChunk lit name = Inr m" and nm: "\<not> (snd m \<and> fst m = [])"
        using matchChunk_literal_other [OF assms False] by blast
      have eq: "(\<exists>r. name = r @ lit \<and> CHR ''/'' \<notin> set r)
                  \<longleftrightarrow> (\<exists>r. r \<noteq> [] \<and> name = r @ lit \<and> CHR ''/'' \<notin> set r)"
        using False by auto
      from unf ne m nm have "path_Match (CHR ''*'' # lit) name =
          (case starLoop lit True name of
             Inl e \<Rightarrow> (False, Some e)
           | Inr None \<Rightarrow> (False, checkRest [])
           | Inr (Some t) \<Rightarrow> path_Match [] t)"
        by auto
      then show ?thesis
        by (simp add: starLoop_literal [OF assms] eq checkRest_empty path_Match_empty)
    qed
  qed
qed

lemma path_Match_literal_star_literal:
  assumes "literal lit1" and "literal lit2"
  shows "path_Match (lit1 @ CHR ''*'' # lit2) name
           = ((\<exists>r. name = lit1 @ r @ lit2 \<and> CHR ''/'' \<notin> set r), None)"
proof (cases "lit1 = []")
  case True
  with path_Match_star_literal [OF assms(2), of name] show ?thesis by simp
next
  case ne: False
  note unf = path_Match_nonempty [OF _ scanChunk_literal_star [OF assms(1) ne, of lit2], of name, simplified]
  show ?thesis
  proof (cases "strings_HasPrefix name lit1")
    case True
    then obtain t where t: "name = lit1 @ t"
      by (auto simp: HasPrefix_iff)
    from unf True assms(1) ne
    have "path_Match (lit1 @ CHR ''*'' # lit2) name = path_Match (CHR ''*'' # lit2) (drop (length lit1) name)"
      by (simp add: matchChunk_literal)
    with t show ?thesis
      by (simp add: path_Match_star_literal [OF assms(2)])
  next
    case False
    then have "\<not> (\<exists>r. name = lit1 @ r @ lit2 \<and> CHR ''/'' \<notin> set r)"
      by (auto simp: HasPrefix_iff)
    with unf False assms ne show ?thesis
      by (simp add: matchChunk_literal checkRest_star_literal)
  qed
qed

lemma starLoop_found:
  "starLoop chunk lastc name = Inr (Some t) \<Longrightarrow>
     \<exists>r s. name = r @ s \<and> r \<noteq> [] \<and> CHR ''/'' \<notin> set r \<and> matchChunk chunk s = Inr (t, True)"
proof (induction name)
  case Nil
  then show ?case by simp
next
  case (Cons c cs)
  from Cons.prems have nsl: "c \<noteq> CHR ''/''"
    by (auto split: if_splits)
  from Cons.prems nsl obtain m where m: "matchChunk chunk cs = Inr m"
    by (cases "matchChunk chunk cs") auto
  show ?case
  proof (cases "snd m \<and> \<not> (lastc \<and> fst m \<noteq> [])")
    case True
    with Cons.prems nsl m have "fst m = t" by simp
    with True m have "matchChunk chunk cs = Inr (t, True)"
      by (cases m) auto
    with nsl show ?thesis
      by (intro exI [of _ "[c]"] exI [of _ cs]) simp
  next
    case False
    with Cons.prems nsl m have "starLoop chunk lastc cs = Inr (Some t)"
      by auto
    from Cons.IH [OF this] obtain r s where
      "cs = r @ s" "r \<noteq> []" "CHR ''/'' \<notin> set r" "matchChunk chunk s = Inr (t, True)"
      by blast
    with nsl show ?thesis
      by (intro exI [of _ "c # r"] exI [of _ s]) simp
  qed
qed

lemma trailing_star:
  "pattern \<noteq> [] \<Longrightarrow> scanChunk pattern = (True, [], rest) \<Longrightarrow>
     path_Match pattern name = (CHR ''/'' \<notin> set name, None)"
  by (simp add: path_Match_nonempty)

lemma scanChunk_scan_plain:
  "plain p \<Longrightarrow> scanChunk_scan False p = length (takeWhile (\<lambda>c. c \<noteq> CHR ''*'') p)"
proof (induction p)
  case Nil
  show ?case by simp
next
  case (Cons c q)
  then have pq: "plain q" and c: "c \<noteq> CHR ''?''" "c \<noteq> CHR ''[''" "c \<noteq> CHR 0x5C"
    by (simp_all add: plain_def)
  show ?case
  proof (cases q)
    case Nil
    then show ?thesis by simp
  next
    case (Cons d ds)
    with Cons.IH [OF pq] c show ?thesis
      by simp
  qed
qed

lemma plain_dropWhile: "plain s \<Longrightarrow> plain (dropWhile P s)"
  unfolding plain_def list_all_iff using set_dropWhileD by fastforce

lemma literal_takeWhile: "plain s \<Longrightarrow> literal (takeWhile (\<lambda>c. c \<noteq> CHR ''*'') s)"
  unfolding plain_def literal_def list_all_iff
  by (auto dest: set_takeWhileD)

lemma scanChunk_plain:
  assumes "plain pat"
  shows "scanChunk pat =
     (pat \<noteq> [] \<and> hd pat = CHR ''*'',
      takeWhile (\<lambda>c. c \<noteq> CHR ''*'') (dropWhile (\<lambda>c. c = CHR ''*'') pat),
      dropWhile (\<lambda>c. c \<noteq> CHR ''*'') (dropWhile (\<lambda>c. c = CHR ''*'') pat))"
  using scanChunk_scan_plain [OF plain_dropWhile [OF assms, of "\<lambda>c. c = CHR ''*''"]]
  by (simp add: scanChunk_def Let_def takeWhile_eq_take [symmetric] dropWhile_eq_drop [symmetric])

lemma slashes_append: "slashes (a @ b) = slashes a + slashes b"
  by (simp add: slashes_def)

lemma slashes_none: "CHR ''/'' \<notin> set r \<Longrightarrow> slashes r = 0"
  by (induction r) (auto simp: slashes_def)

lemma slashes_drop_stars: "slashes (dropWhile (\<lambda>c. c = CHR ''*'') s) = slashes s"
  by (induction s) (auto simp: slashes_def)

lemma slashes_split:
  "slashes (takeWhile P s) + slashes (dropWhile P s) = slashes s"
  using slashes_append [of "takeWhile P s" "dropWhile P s"] by simp

lemma scanChunk_plain_parts:
  assumes "plain pat" and "scanChunk pat = (star, chunk, rest)"
  shows "literal chunk" and "plain rest" and "slashes pat = slashes chunk + slashes rest"
    and "chunk = [] \<Longrightarrow> rest = []"
proof -
  let ?p = "dropWhile (\<lambda>c. c = CHR ''*'') pat"
  from scanChunk_plain [OF assms(1)] assms(2)
  have ch: "chunk = takeWhile (\<lambda>c. c \<noteq> CHR ''*'') ?p"
    and re: "rest = dropWhile (\<lambda>c. c \<noteq> CHR ''*'') ?p"
    by simp_all
  have pp: "plain ?p" using assms(1) by (rule plain_dropWhile)
  show "literal chunk" using pp by (simp add: ch literal_takeWhile)
  show "plain rest" using pp by (simp add: re plain_dropWhile)
  show "slashes pat = slashes chunk + slashes rest"
    by (simp add: ch re slashes_split slashes_drop_stars)
  show "rest = []" if "chunk = []"
  proof (cases ?p)
    case Nil
    show ?thesis unfolding re Nil by simp
  next
    case (Cons x xs)
    then have "x \<noteq> CHR ''*''"
      using hd_dropWhile [of "\<lambda>c. c = CHR ''*''" pat] by auto
    with that show ?thesis unfolding ch Cons by simp
  qed
qed


lemma matchChunk_literal_ok:
  "literal chunk \<Longrightarrow> matchChunk chunk s = Inr (t, True) \<Longrightarrow> s = chunk @ t"
  by (auto simp: matchChunk_literal HasPrefix_iff split: if_splits)

lemma path_Match_plain_slashes:
  "plain pattern \<Longrightarrow> fst (path_Match pattern name) \<Longrightarrow> slashes name = slashes pattern"
proof (induction pattern name rule: path_Match.induct)
  case (1 pattern name)
  show ?case
  proof (cases "pattern = []")
    case True
    with "1.prems" show ?thesis by (simp add: path_Match_empty)
  next
    case ne: False
    obtain star chunk rest where sc: "scanChunk pattern = (star, chunk, rest)"
      by (cases "scanChunk pattern") auto
    note parts = scanChunk_plain_parts [OF "1.prems"(1) sc]
    note unf = path_Match_nonempty [OF ne sc, of name]
    show ?thesis
    proof (cases "star \<and> chunk = []")
      case True
      have "path_Match pattern name = (CHR ''/'' \<notin> set name, None)"
        by (simp only: unf if_P [OF True])
      with "1.prems"(2) have "slashes name = 0"
        by (simp add: slashes_none)
      moreover from True parts(3,4) have "slashes pattern = 0"
        by (simp add: slashes_def)
      ultimately show ?thesis by simp
    next
      case ns: False
      obtain m where m: "matchChunk chunk name = Inr m"
        using parts(1) by (simp add: matchChunk_literal)
      show ?thesis
      proof (cases "snd m \<and> (fst m = [] \<or> rest \<noteq> [])")
        case True
        have eq: "path_Match pattern name = path_Match rest (fst m)"
          by (simp only: unf if_not_P [OF ns] m sum.case if_P [OF True])
        from True m have "matchChunk chunk name = Inr (fst m, True)"
          by (cases m) auto
        from matchChunk_literal_ok [OF parts(1) this] have n: "name = chunk @ fst m" .
        from "1.IH"(1) [OF ne sc [symmetric] refl ns m True parts(2)] eq "1.prems"(2)
        have "slashes (fst m) = slashes rest" by simp
        then have "slashes (chunk @ fst m) = slashes pattern"
          by (simp add: slashes_append parts(3))
        with n show ?thesis by simp
      next
        case nm: False
        show ?thesis
        proof (cases star)
          case star: True
          show ?thesis
          proof (cases "starLoop chunk (rest = []) name")
            case (Inl e)
            have "path_Match pattern name = (False, Some e)"
              by (simp only: unf if_not_P [OF ns] m sum.case if_not_P [OF nm] if_P [OF star] Inl)
            with "1.prems"(2) show ?thesis by simp
          next
            case sl: (Inr x)
            show ?thesis
            proof (cases x)
              case None
              have "path_Match pattern name = (False, checkRest rest)"
                by (simp only: unf if_not_P [OF ns] m sum.case if_not_P [OF nm] if_P [OF star]
                      sl None option.case)
              with "1.prems"(2) show ?thesis by simp
            next
              case (Some t)
              have eq: "path_Match pattern name = path_Match rest t"
                by (simp only: unf if_not_P [OF ns] m sum.case if_not_P [OF nm] if_P [OF star]
                      sl Some option.case)
              from sl Some have "starLoop chunk (rest = []) name = Inr (Some t)" by simp
              from starLoop_found [OF this] obtain r s where
                rs: "name = r @ s" "CHR ''/'' \<notin> set r" "matchChunk chunk s = Inr (t, True)"
                by blast
              from matchChunk_literal_ok [OF parts(1) rs(3)] have s: "s = chunk @ t" .
              from "1.IH"(2) [OF ne sc [symmetric] refl ns m nm star sl Some parts(2)] eq "1.prems"(2)
              have "slashes t = slashes rest" by simp
              then have "slashes (r @ chunk @ t) = slashes pattern"
                by (simp add: slashes_append parts(3) slashes_none [OF rs(2)])
              with rs(1) s show ?thesis by simp
            qed
          qed
        next
          case False
          have "path_Match pattern name = (False, checkRest rest)"
            by (simp only: unf if_not_P [OF ns] m sum.case if_not_P [OF nm] if_not_P [OF False])
          with "1.prems"(2) show ?thesis by simp
        qed
      qed
    qed
  qed
qed

text \<open>
  Claim C3, as amended. \<^verbatim>\<open>skip\<close> matches the whole path with \<^verbatim>\<open>path.Match\<close>, and
  the run of bytes that a star stands for never holds a slash. In every pattern: the
  bytes that the loop of a star skips before its chunk matches are free of slashes, and
  a star at the end of the pattern matches the rest of the path only if that has no
  slash. Hence a pattern of literal characters and stars (\<open>plain\<close>) excludes only
  paths with exactly as many slashes as the pattern writes, and for texts \<open>lit1\<close>
  and \<open>lit2\<close> without operators the pattern \<open>lit1 * lit2\<close> excludes exactly the
  paths \<open>lit1 r lit2\<close> where \<open>r\<close> holds no slash.
\<close>

theorem star_stops_at_slash:
  "(starLoop chunk lastc name = Inr (Some t) \<longrightarrow>
      (\<exists>r s. name = r @ s \<and> r \<noteq> [] \<and> CHR ''/'' \<notin> set r \<and> matchChunk chunk s = Inr (t, True))) \<and>
   (pattern \<noteq> [] \<and> scanChunk pattern = (True, [], rest) \<longrightarrow>
      path_Match pattern name = (CHR ''/'' \<notin> set name, None)) \<and>
   (plain pat \<and> skip (c\<lparr>Exclude := [pat]\<rparr>) p \<longrightarrow> slashes p = slashes pat) \<and>
   (literal lit1 \<and> literal lit2 \<longrightarrow>
      (skip (c\<lparr>Exclude := [lit1 @ ''*'' @ lit2]\<rparr>) p
         \<longleftrightarrow> (\<exists>r. p = lit1 @ r @ lit2 \<and> CHR ''/'' \<notin> set r)))"
proof (intro conjI impI)
  assume "starLoop chunk lastc name = Inr (Some t)"
  then show "\<exists>r s. name = r @ s \<and> r \<noteq> [] \<and> CHR ''/'' \<notin> set r \<and> matchChunk chunk s = Inr (t, True)"
    by (rule starLoop_found)
next
  assume "pattern \<noteq> [] \<and> scanChunk pattern = (True, [], rest)"
  then show "path_Match pattern name = (CHR ''/'' \<notin> set name, None)"
    by (simp add: trailing_star)
next
  assume a: "plain pat \<and> skip (c\<lparr>Exclude := [pat]\<rparr>) p"
  then have "fst (path_Match pat p)"
    by (auto simp: skip_def split: if_splits)
  with a show "slashes p = slashes pat"
    by (simp add: path_Match_plain_slashes)
next
  assume "literal lit1 \<and> literal lit2"
  then show "skip (c\<lparr>Exclude := [lit1 @ ''*'' @ lit2]\<rparr>) p
         \<longleftrightarrow> (\<exists>r. p = lit1 @ r @ lit2 \<and> CHR ''/'' \<notin> set r)"
    using path_Match_literal_star_literal [of lit1 lit2 p]
    by (simp add: skip_def)
qed

theorem star_stops_at_slash_witness:
  "literal ''/media/'' \<and> literal ''.ZIP'' \<and> plain ''/media/*.ZIP'' \<and>
   skip ((testConfig ''lower'')\<lparr>Exclude := [''/media/*.ZIP'']\<rparr>) ''/media/a_x.ZIP'' \<and>
   slashes ''/media/a_x.ZIP'' = slashes ''/media/*.ZIP''"
proof -
  have h1: "literal ''/media/''"
    by simp
  have h2: "literal ''.ZIP''"
    by simp
  have h3: "plain ''/media/*.ZIP''"
    by (simp add: plain_def)
  note t = star_stops_at_slash [where ?lit1.0 = "''/media/''" and ?lit2.0 = "''.ZIP''"
      and pat = "''/media/*.ZIP''" and c = "testConfig ''lower''" and p = "''/media/a_x.ZIP''"
      and chunk = "[]" and lastc = True and name = "[]" and t = "[]" and pattern = "[]" and rest = "[]"]
  have "\<exists>r. ''/media/a_x.ZIP'' = ''/media/'' @ r @ ''.ZIP'' \<and> CHR ''/'' \<notin> set r"
    by (intro exI [of _ "''a_x''"]) simp
  with t h1 h2 have sk: "skip ((testConfig ''lower'')\<lparr>Exclude := [''/media/*.ZIP'']\<rparr>) ''/media/a_x.ZIP''"
    by simp
  with t h3 have "slashes ''/media/a_x.ZIP'' = slashes ''/media/*.ZIP''"
    by blast
  with h1 h2 h3 sk show ?thesis
    by blast
qed

text \<open>
  Claim C3 as stated fails: under the pattern \<^verbatim>\<open>/media/*.ZIP\<close> the star matches the
  run \<^verbatim>\<open>a_x\<close> but not the run \<^verbatim>\<open>a/x\<close>, which spans two segments.
\<close>

theorem star_crosses_slash_counterexample:
  "skip ((testConfig ''lower'')\<lparr>Exclude := [''/media/*.ZIP'']\<rparr>) ''/media/a_x.ZIP'' \<and>
   \<not> skip ((testConfig ''lower'')\<lparr>Exclude := [''/media/*.ZIP'']\<rparr>) ''/media/a/x.ZIP''"
  by code_simp

subsection \<open>Shape of a canonical path\<close>

lemma exactMatch_found:
  "exactMatch entries seg \<noteq> [] \<Longrightarrow> exactMatch entries seg = seg \<and> seg \<in> set entries"
  by (induction entries) (auto split: if_splits)

lemma lowerMatch_found:
  "lowerMatch tabs entries lowered \<noteq> [] \<Longrightarrow>
     lowerMatch tabs entries lowered \<in> set entries \<and>
     strings_ToLower tabs (lowerMatch tabs entries lowered) = lowered"
  by (induction entries) (auto split: if_splits)

lemma matchName_found:
  assumes "matchName tabs entries seg \<noteq> []"
  shows "matchName tabs entries seg \<in> set entries \<and>
         strings_ToLower tabs (matchName tabs entries seg) = strings_ToLower tabs seg"
proof (cases "exactMatch entries seg = []")
  case True
  with assms lowerMatch_found [of tabs entries "strings_ToLower tabs seg"] show ?thesis
    by (simp add: matchName_def Let_def)
next
  case False
  with exactMatch_found [OF False] show ?thesis
    by (simp add: matchName_def Let_def)
qed

lemma canonicalFS_loop_built:
  "canonicalFS_loop tabs fs curDir segs built tr = (Some b, tr') \<Longrightarrow>
     \<exists>names. b = built @ names \<and>
       list_all2 (\<lambda>n s. strings_ToLower tabs n = strings_ToLower tabs s
                    \<and> (\<exists>d es. ReadDir fs d = Some es \<and> n \<in> set es)) names segs"
proof (induction segs arbitrary: curDir built tr)
  case Nil
  then show ?case by simp
next
  case (Cons seg rest)
  from Cons.prems obtain entries where rd: "ReadDir fs curDir = Some entries"
    by (auto split: option.splits)
  define name where "name = matchName tabs entries seg"
  from Cons.prems rd have ne: "name \<noteq> []"
    by (auto simp: name_def Let_def split: if_splits)
  from matchName_found [of tabs entries seg] ne
  have nm: "name \<in> set entries" "strings_ToLower tabs name = strings_ToLower tabs seg"
    by (simp_all add: name_def)
  from Cons.prems rd ne obtain dir tr1 where
    rec: "canonicalFS_loop tabs fs dir rest (built @ [name]) tr1 = (Some b, tr')"
    by (auto simp: name_def [symmetric] Let_def split: if_splits option.splits)
  from Cons.IH [OF rec] obtain names where
    names: "b = (built @ [name]) @ names"
      "list_all2 (\<lambda>n s. strings_ToLower tabs n = strings_ToLower tabs s
                    \<and> (\<exists>d es. ReadDir fs d = Some es \<and> n \<in> set es)) names rest"
    by blast
  show ?case
  proof (intro exI conjI)
    show "b = built @ (name # names)" using names(1) by simp
    show "list_all2 (\<lambda>n s. strings_ToLower tabs n = strings_ToLower tabs s
                    \<and> (\<exists>d es. ReadDir fs d = Some es \<and> n \<in> set es)) (name # names) (seg # rest)"
      using names(2) nm rd by auto
  qed
qed

lemma Split_loop_sep:
  "CHR ''/'' \<notin> set n \<Longrightarrow> Split_loop ''/'' cur (n @ CHR ''/'' # s) = (cur @ n) # Split_loop ''/'' [] s"
  by (induction n arbitrary: cur) (auto simp: strings_HasPrefix_def)

lemma Split_Join:
  "names \<noteq> [] \<Longrightarrow> \<forall>n\<in>set names. CHR ''/'' \<notin> set n \<Longrightarrow>
     strings_Split (strings_Join names ''/'') ''/'' = names"
proof (induction names)
  case Nil
  then show ?case by simp
next
  case (Cons e es)
  show ?case
  proof (cases es)
    case Nil
    with Cons.prems show ?thesis
      by (simp add: strings_Split_def Split_loop_no_sep)
  next
    case (Cons e' es')
    with Cons.IH Cons.prems have "Split_loop ''/'' [] (strings_Join (e' # es') ''/'') = e' # es'"
      by (simp add: strings_Split_def)
    with Cons Cons.prems show ?thesis
      by (simp add: strings_Split_def Split_loop_sep [of e "[]", simplified])
  qed
qed

lemma Split_nonempty: "strings_Split s ''/'' \<noteq> []"
proof -
  have "Split_loop sep cur s \<noteq> []" for sep cur
    by (induction sep cur s rule: Split_loop.induct) auto
  then show ?thesis by (simp add: strings_Split_def)
qed

text \<open>
  Claim C10. On a file system whose entry names hold no slash, whenever
  \<^verbatim>\<open>canonicalFS\<close> succeeds with \<open>(q, True)\<close>, the path \<open>q\<close> has as many segments
  as the cleaned input, and lower-casing the segments of \<open>q\<close> one by one gives the
  lower-cased segments of the cleaned input, in the same order.
\<close>

theorem canonical_agrees_up_to_case:
  assumes "entry_names_wf fs" and "canonicalFS tabs fs c p = ((q, True), tr)"
  shows "length (segments q) = length (segments (path_Clean p)) \<and>
         map (strings_ToLower tabs) (segments q) = map (strings_ToLower tabs) (segments (path_Clean p))"
proof -
  from canonicalFS_ok [OF assms(2)] obtain built where
    loop: "canonicalFS_loop tabs fs (Root c) (segments (path_Clean p)) [] [] = (Some built, tr)"
    and q: "q = ''/'' @ strings_Join built ''/''"
    by blast
  from canonicalFS_loop_built [OF loop] have
    rel: "list_all2 (\<lambda>n s. strings_ToLower tabs n = strings_ToLower tabs s
                    \<and> (\<exists>d es. ReadDir fs d = Some es \<and> n \<in> set es)) built (segments (path_Clean p))"
    by simp
  have "segments (path_Clean p) \<noteq> []"
    by (simp add: segments_def Split_nonempty)
  with rel have ne: "built \<noteq> []"
    by auto
  have "\<forall>n\<in>set built. CHR ''/'' \<notin> set n"
  proof
    fix n assume "n \<in> set built"
    then obtain i where i: "i < length built" "n = built ! i"
      by (auto simp: in_set_conv_nth)
    from rel i(1) have "\<exists>d es. ReadDir fs d = Some es \<and> built ! i \<in> set es"
      by (simp add: list_all2_conv_all_nth)
    with i(2) obtain d es where "ReadDir fs d = Some es" "n \<in> set es"
      by blast
    with assms(1) show "CHR ''/'' \<notin> set n"
      by (auto simp: entry_names_wf_def)
  qed
  with ne have "segments q = built"
    by (simp add: q segments_def strings_TrimPrefix_def strings_HasPrefix_def Split_Join)
  moreover from rel have "map (strings_ToLower tabs) built = map (strings_ToLower tabs) (segments (path_Clean p))"
    by (auto simp: list_all2_conv_all_nth intro: nth_equalityI)
  moreover from rel have "length built = length (segments (path_Clean p))"
    by (rule list_all2_lengthD)
  ultimately show ?thesis by simp
qed

theorem canonical_agrees_up_to_case_witness:
  "entry_names_wf testFS \<and>
   canonicalFS latin1Tables testFS (testConfig ''fs'') ''/Scripts/./MYSCRIPT.bat''
     = ((''/scripts/MyScript.bat'', True),
        [EvReadDir ''/srv'', EvStat ''/srv/scripts'', EvReadDir ''/srv/scripts'']) \<and>
   length (segments ''/scripts/MyScript.bat'') = length (segments (path_Clean ''/Scripts/./MYSCRIPT.bat'')) \<and>
   map (strings_ToLower latin1Tables) (segments ''/scripts/MyScript.bat'')
     = map (strings_ToLower latin1Tables) (segments (path_Clean ''/Scripts/./MYSCRIPT.bat''))"
proof -
  have h1: "entry_names_wf testFS"
    by (auto simp: entry_names_wf_def testFS_def split: if_splits)
  have h2: "canonicalFS latin1Tables testFS (testConfig ''fs'') ''/Scripts/./MYSCRIPT.bat''
     = ((''/scripts/MyScript.bat'', True),
        [EvReadDir ''/srv'', EvStat ''/srv/scripts'', EvReadDir ''/srv/scripts''])"
    by code_simp
  from canonical_agrees_up_to_case [OF h1 h2] h1 h2 show ?thesis
    by blast
qed

subsection \<open>Idempotence of the casers\<close>

text \<open>
  \<^verbatim>\<open>strings.ToLower\<close> and \<^verbatim>\<open>cases.Fold().String\<close> work on the runes that they decode from
  the bytes of the string, and write bytes again; a second pass decodes what the first
  wrote. The facts below follow the bytes through both passes: a rune that can be
  encoded is read back from its encoding whatever follows it, the decoder returns only
  such runes, and a byte that is not part of a valid encoding is still none after the
  bytes behind it were folded. What remains is a property of the tables alone.
\<close>















declare utf8_DecodeRuneInString.simps [simp del]
















































text \<open>What the two casers return on that path.\<close>

lemma caser_String_evaluation:
  "caser_String latin1Tables lowerCaser (''/Stra'' @ [CHR 0xC3, CHR 0x9F] @ ''E/'' @ [CHR 0xC3, CHR 0x89, CHR 0xFF])
     = ''/stra'' @ [CHR 0xC3, CHR 0x9F] @ ''e/'' @ [CHR 0xC3, CHR 0xA9, CHR 0xEF, CHR 0xBF, CHR 0xBD] \<and>
   caser_String latin1Tables cases_Fold (''/Stra'' @ [CHR 0xC3, CHR 0x9F] @ ''E/'' @ [CHR 0xC3, CHR 0x89, CHR 0xFF])
     = ''/strasse/'' @ [CHR 0xC3, CHR 0xA9, CHR 0xFF]"
  by code_simp

text \<open>
  The property of the tables cannot be dropped: with a table that sends U+00C8 to
  U+00C9 and U+00C9 to U+00CA, lower-casing twice is not lower-casing once.
\<close>

lemma caser_not_idempotent_for_other_tables:
  "strings_ToLower \<lparr>ToLowerTab = (\<lambda>r. if r = 200 then 201 else if r = 201 then 202 else r),
                    FoldTab = utf8_AppendRune\<rparr> [CHR 0xC3, CHR 0x88] = [CHR 0xC3, CHR 0x89] \<and>
   strings_ToLower \<lparr>ToLowerTab = (\<lambda>r. if r = 200 then 201 else if r = 201 then 202 else r),
                    FoldTab = utf8_AppendRune\<rparr> [CHR 0xC3, CHR 0x89] = [CHR 0xC3, CHR 0x8A]"
  by code_simp

end
